theory Spec2Isabelle
  imports Complex_Main "HOL-Library.Word"
begin

section \<open>Q\# integers and doubles\<close>

text \<open>
  The Grover notebook is written in Q\# 0.14. Its \<open>Int\<close> is a 64-bit signed integer and
  its \<open>Double\<close> an IEEE 754 binary64 number. The left shift \<open>x <<< n\<close> is the shift of the
  64-bit host integer: the count is taken modulo 64 and bits shifted out are lost, so
  \<open>1 <<< 63\<close> is the most negative integer.
\<close>

definition shl :: "int \<Rightarrow> int \<Rightarrow> int" where
  "shl x n = sint (push_bit (nat (n mod 64)) (word_of_int x :: 64 word))"

text \<open>
  Doubles are modelled by the reals they denote. The operations the notebook takes from
  the Q\# library and the host (\<open>+ - * /\<close>, \<open>Sqrt\<close>, \<open>ArcSin\<close>, \<open>PI\<close>, \<open>Round\<close>,
  \<open>IntAsDouble\<close>) are not in the repository; they are parameters of the model:
  \<open>rnd\<close> rounds the exact result of an arithmetic operation to a Double,
  \<open>ArcSin\<close> is the library's arc sine and \<open>Round\<close> its conversion to the nearest \<open>Int\<close>.
  IEEE 754 rounds \<open>+ - * /\<close> and the square root correctly, and \<open>PI()\<close> is the Double
  nearest to \<open>\<pi>\<close>.
\<close>

record double_arith =
  rnd :: "real \<Rightarrow> real"
  ArcSin :: "real \<Rightarrow> real"
  Round :: "real \<Rightarrow> int"

definition Sqrt :: "double_arith \<Rightarrow> real \<Rightarrow> real" where
  "Sqrt D x = rnd D (sqrt x)"

definition PI :: "double_arith \<Rightarrow> real" where
  "PI D = rnd D pi"

definition IntAsDouble :: "double_arith \<Rightarrow> int \<Rightarrow> real" where
  "IntAsDouble D n = rnd D (real_of_int n)"

text \<open>
  What the proofs assume of a Double arithmetic: a relative error of at most \<open>eps\<close> (plus
  \<open>eta\<close> near zero) for every operation whose result is below \<open>2 ^ 100\<close> in magnitude and
  for the arc sine on \<open>[-1, 1]\<close>, small integers represented exactly, and a \<open>Round\<close> that
  returns an integer at distance at most one half, whatever it does at a tie. Binary64
  with round-to-nearest is within these bounds (its unit roundoff is \<open>2 ^ -53\<close>).
\<close>

definition eps :: real where
  "eps = 1 / 2 ^ 50"

definition eta :: real where
  "eta = 1 / 2 ^ 200"

definition accurate :: "double_arith \<Rightarrow> bool" where
  "accurate D \<longleftrightarrow>
     (\<forall>x. \<bar>x\<bar> \<le> 2 ^ 100 \<longrightarrow> \<bar>rnd D x - x\<bar> \<le> eps * \<bar>x\<bar> + eta) \<and>
     (\<forall>k. \<bar>k\<bar> \<le> 2 ^ 53 \<longrightarrow> rnd D (real_of_int k) = real_of_int k) \<and>
     (\<forall>x. \<bar>x\<bar> \<le> 1 \<longrightarrow> \<bar>ArcSin D x - arcsin x\<bar> \<le> eps * \<bar>arcsin x\<bar> + eta) \<and>
     (\<forall>x. \<bar>x\<bar> \<le> 2 ^ 62 \<longrightarrow> \<bar>real_of_int (Round D x) - x\<bar> \<le> 1 / 2)"

text \<open>The arithmetic without rounding error, with ties rounded up.\<close>

definition exact :: double_arith where
  "exact = \<lparr>rnd = (\<lambda>x. x), ArcSin = arcsin, Round = round\<rparr>"

text \<open>The same arithmetic with ties rounded down.\<close>

definition exact_down :: double_arith where
  "exact_down = \<lparr>rnd = (\<lambda>x. x), ArcSin = arcsin, Round = (\<lambda>x. - round (- x))\<rparr>"

section \<open>The iteration count\<close>

text \<open>
  \<^verbatim>\<open>
  function NIterations(nQubits : Int) : Int {
      let nItems = 1 <<< nQubits; // 2^numQubits
      let angle = ArcSin(1. / Sqrt(IntAsDouble(nItems)));
      let nIterations = Round(0.25 * PI() / angle - 0.5);
      return nIterations;
  }
  \<close>
  The square root of a negative Double is NaN, NaN propagates through the arithmetic,
  and \<open>Round\<close> of NaN is no defined integer: the model returns \<open>None\<close> there.
\<close>

definition NIterations :: "double_arith \<Rightarrow> int \<Rightarrow> int option" where
  "NIterations D nQubits =
     (let nItems = shl 1 nQubits in
      if nItems < 0 then None
      else
        let angle = ArcSin D (rnd D (1 / Sqrt D (IntAsDouble D nItems)));
            nIterations = Round D (rnd D (rnd D (rnd D (0.25 * PI D) / angle) - 0.5))
        in Some nIterations)"

text \<open>
  The closed form of the specification, \<open>round(0.25 \<pi> / arcsin(1 / \<surd>(2^N)) - 0.5)\<close>,
  over the real numbers. It is stated in the words of the specification and does not
  depend on the code; \<open>round\<close> rounds a tie up.
\<close>

definition IterationPlan :: "nat \<Rightarrow> int" where
  "IterationPlan N = round (0.25 * pi / arcsin (1 / sqrt (2 ^ N)) - 0.5)"

section \<open>Quantum registers\<close>

text \<open>
  The quantum operations of the notebook (\<open>H\<close>, \<open>X\<close>, \<open>Controlled Z\<close>, \<open>ControlledOnInt\<close>,
  \<open>MResetZ\<close>, qubit allocation) are intrinsics and library operations of Q\#, not code of
  the repository. They are modelled by their textbook action on the amplitudes of the
  computational basis.

  A qubit is identified by its position. A basis state of \<open>n\<close> qubits is a \<open>bool list\<close> of
  length \<open>n\<close> whose entry \<open>i\<close> is the value of qubit \<open>i\<close>. A state is a complete binary
  tree of amplitudes: \<open>Branch a b\<close> splits on the first qubit, \<open>a\<close> holding the amplitudes
  where it is 0 and \<open>b\<close> those where it is 1.
\<close>

datatype Result = Zero | One

datatype error =
    EmptyArray
  | NumberOutOfRange
  | InvalidArrayLength
  | QubitNotZero
  | NoIterationCount

datatype qstate = Amp complex | Branch qstate qstate

text \<open>The amplitude of a basis state.\<close>

fun amp :: "qstate \<Rightarrow> bool list \<Rightarrow> complex" where
  "amp (Amp c) [] = c"
| "amp (Branch a b) (x # xs) = (if x then amp b xs else amp a xs)"
| "amp _ _ = 0"

text \<open>The state of \<open>n\<close> qubits with given amplitudes.\<close>

fun tab :: "nat \<Rightarrow> (bool list \<Rightarrow> complex) \<Rightarrow> qstate" where
  "tab 0 f = Amp (f [])"
| "tab (Suc n) f = Branch (tab n (\<lambda>bs. f (False # bs))) (tab n (\<lambda>bs. f (True # bs)))"

fun is_state :: "nat \<Rightarrow> qstate \<Rightarrow> bool" where
  "is_state 0 (Amp c) = True"
| "is_state (Suc n) (Branch a b) = (is_state n a \<and> is_state n b)"
| "is_state _ _ = False"

fun nqubits :: "qstate \<Rightarrow> nat" where
  "nqubits (Amp c) = 0"
| "nqubits (Branch a b) = Suc (nqubits a)"

text \<open>The squared norm: the total probability weight of a (possibly unnormalised) state.\<close>

fun norm2 :: "qstate \<Rightarrow> real" where
  "norm2 (Amp c) = (cmod c)\<^sup>2"
| "norm2 (Branch a b) = norm2 a + norm2 b"

fun basis :: "nat \<Rightarrow> bool list list" where
  "basis 0 = [[]]"
| "basis (Suc n) = map ((#) False) (basis n) @ map ((#) True) (basis n)"

text \<open>\<open>use qubits = Qubit[n]\<close>: freshly allocated qubits are all in state 0.\<close>

definition zero_state :: "nat \<Rightarrow> qstate" where
  "zero_state n = tab n (\<lambda>bs. if bs = replicate n False then 1 else 0)"

text \<open>
  The gates. A gate on a position that is not a qubit of the state leaves the state alone;
  Q\# programs cannot name such a qubit.
\<close>

definition H :: "nat \<Rightarrow> qstate \<Rightarrow> qstate" where
  "H q \<psi> =
     (if q < nqubits \<psi> then
        tab (nqubits \<psi>) (\<lambda>bs. (amp \<psi> (bs[q := False]) +
            (if bs ! q then - 1 else 1) * amp \<psi> (bs[q := True])) / complex_of_real (sqrt 2))
      else \<psi>)"

definition X :: "nat \<Rightarrow> qstate \<Rightarrow> qstate" where
  "X q \<psi> =
     (if q < nqubits \<psi> then tab (nqubits \<psi>) (\<lambda>bs. amp \<psi> (bs[q := \<not> bs ! q])) else \<psi>)"

text \<open>\<open>Controlled Z(controls, target)\<close>: the sign flips where all controls and the target are 1.\<close>

definition Controlled_Z :: "nat list \<Rightarrow> nat \<Rightarrow> qstate \<Rightarrow> qstate" where
  "Controlled_Z controls target \<psi> =
     (if list_all (\<lambda>q. q < nqubits \<psi>) (target # controls) then
        tab (nqubits \<psi>) (\<lambda>bs. if list_all (\<lambda>c. bs ! c) controls \<and> bs ! target
                              then - amp \<psi> bs else amp \<psi> bs)
      else \<psi>)"

text \<open>
  \<open>ControlledOnInt(numberState, X)\<close> of the Q\# standard library applies \<open>X\<close> to the target
  when the control register holds \<open>numberState\<close> in little-endian encoding. It converts the
  number with \<open>IntAsBoolArray(numberState, Length(controlRegister))\<close>, which fails unless
  \<open>0 \<le> bits \<le> 63\<close> and \<open>0 \<le> number < 2 ^ bits\<close>, and then controls on that bit string:
  \<^verbatim>\<open>
  for idxBit in 0 .. bits - 1 {
      set outputBits w/= idxBit <- tempInt % 2 == 0 ? false | true;
      set tempInt = tempInt / 2;
  }
  \<close>
\<close>

fun IntAsBoolArray_loop :: "nat \<Rightarrow> int \<Rightarrow> bool list" where
  "IntAsBoolArray_loop 0 tempInt = []"
| "IntAsBoolArray_loop (Suc k) tempInt = (tempInt mod 2 \<noteq> 0) # IntAsBoolArray_loop k (tempInt div 2)"

definition IntAsBoolArray :: "int \<Rightarrow> int \<Rightarrow> error + bool list" where
  "IntAsBoolArray number bits =
     (if \<not> (0 \<le> bits \<and> bits \<le> 63) then Inl NumberOutOfRange
      else if \<not> (0 \<le> number \<and> number < 2 ^ nat bits) then Inl NumberOutOfRange
      else Inr (IntAsBoolArray_loop (nat bits) number))"

definition ControlledOnBitString_X :: "bool list \<Rightarrow> nat list \<Rightarrow> nat \<Rightarrow> qstate \<Rightarrow> qstate" where
  "ControlledOnBitString_X bits controlRegister target \<psi> =
     (if list_all (\<lambda>q. q < nqubits \<psi>) (target # controlRegister) then
        tab (nqubits \<psi>) (\<lambda>bs. if list_all (\<lambda>(c, b). bs ! c = b) (zip controlRegister bits)
                              then amp \<psi> (bs[target := \<not> bs ! target]) else amp \<psi> bs)
      else \<psi>)"

definition ControlledOnInt_X :: "int \<Rightarrow> nat list \<Rightarrow> nat \<Rightarrow> qstate \<Rightarrow> error + qstate" where
  "ControlledOnInt_X numberState controlRegister target \<psi> =
     (case IntAsBoolArray numberState (int (length controlRegister)) of
        Inl e \<Rightarrow> Inl e
      | Inr bits \<Rightarrow> Inr (ControlledOnBitString_X bits controlRegister target \<psi>))"

text \<open>
  \<open>use outputQubit = Qubit()\<close> adds a qubit in state 0 after the existing ones; at the end
  of its scope the qubit is released, which the simulator refuses unless it is back in
  state 0.
\<close>

definition allocate :: "qstate \<Rightarrow> qstate" where
  "allocate \<psi> = tab (Suc (nqubits \<psi>)) (\<lambda>bs. if last bs then 0 else amp \<psi> (butlast bs))"

definition release :: "qstate \<Rightarrow> error + qstate" where
  "release \<psi> =
     (let n = nqubits \<psi> - 1 in
      if list_all (\<lambda>bs. amp \<psi> (bs @ [True]) = 0) (basis n)
      then Inr (tab n (\<lambda>bs. amp \<psi> (bs @ [False])))
      else Inl QubitNotZero)"

text \<open>
  \<open>MResetZ q\<close> measures qubit \<open>q\<close> in the computational basis and resets it to 0.
  \<open>MResetZ q r \<psi>\<close> is the unnormalised state after the measurement gave result \<open>r\<close>; its
  squared norm is the probability of that result (Born's rule).
\<close>

definition MResetZ :: "nat \<Rightarrow> Result \<Rightarrow> qstate \<Rightarrow> qstate" where
  "MResetZ q r \<psi> =
     (if q < nqubits \<psi> then
        tab (nqubits \<psi>) (\<lambda>bs. if bs ! q then 0 else amp \<psi> (bs[q := (r = One)]))
      else \<psi>)"

section \<open>The operations of the Grover notebook\<close>

text \<open>
  \<open>ApplyToEachCA(op, qubits)\<close> applies \<open>op\<close> to each qubit in order; its adjoint applies
  the adjoint of \<open>op\<close> in reverse order. \<open>H\<close> and \<open>X\<close> are their own adjoints.
\<close>

definition ApplyToEachCA :: "(nat \<Rightarrow> qstate \<Rightarrow> qstate) \<Rightarrow> nat list \<Rightarrow> qstate \<Rightarrow> qstate" where
  "ApplyToEachCA g qs \<psi> = fold g qs \<psi>"

definition Adjoint_ApplyToEachCA :: "(nat \<Rightarrow> qstate \<Rightarrow> qstate) \<Rightarrow> nat list \<Rightarrow> qstate \<Rightarrow> qstate" where
  "Adjoint_ApplyToEachCA g qs \<psi> = fold g (rev qs) \<psi>"

text \<open>
  \<^verbatim>\<open>
  operation PrepareUniform(inputQubits : Qubit[]) : Unit is Adj + Ctl {
      ApplyToEachCA(H, inputQubits);
  }
  operation PrepareAllOnes(inputQubits : Qubit[]) : Unit is Adj + Ctl {
      ApplyToEachCA(X, inputQubits);
  }
  operation ReflectAboutAllOnes(inputQubits : Qubit[]) : Unit {
      Controlled Z(Most(inputQubits), Tail(inputQubits));
  }
  \<close>
\<close>

definition PrepareUniform :: "nat list \<Rightarrow> qstate \<Rightarrow> qstate" where
  "PrepareUniform inputQubits \<psi> = ApplyToEachCA H inputQubits \<psi>"

definition Adjoint_PrepareUniform :: "nat list \<Rightarrow> qstate \<Rightarrow> qstate" where
  "Adjoint_PrepareUniform inputQubits \<psi> = Adjoint_ApplyToEachCA H inputQubits \<psi>"

definition PrepareAllOnes :: "nat list \<Rightarrow> qstate \<Rightarrow> qstate" where
  "PrepareAllOnes inputQubits \<psi> = ApplyToEachCA X inputQubits \<psi>"

definition Adjoint_PrepareAllOnes :: "nat list \<Rightarrow> qstate \<Rightarrow> qstate" where
  "Adjoint_PrepareAllOnes inputQubits \<psi> = Adjoint_ApplyToEachCA X inputQubits \<psi>"

text \<open>\<open>Most\<close> drops the last element; \<open>Tail\<close> returns it and fails on an empty array.\<close>

definition Most :: "'a list \<Rightarrow> 'a list" where
  "Most array = butlast array"

definition Tail :: "'a list \<Rightarrow> error + 'a" where
  "Tail array = (if array = [] then Inl EmptyArray else Inr (last array))"

definition ReflectAboutAllOnes :: "nat list \<Rightarrow> qstate \<Rightarrow> error + qstate" where
  "ReflectAboutAllOnes inputQubits \<psi> =
     (case Tail inputQubits of
        Inl e \<Rightarrow> Inl e
      | Inr t \<Rightarrow> Inr (Controlled_Z (Most inputQubits) t \<psi>))"

text \<open>
  \<^verbatim>\<open>
  operation ReflectAboutUniform(inputQubits : Qubit[]) : Unit {
      within {
          Adjoint PrepareUniform(inputQubits);
          PrepareAllOnes(inputQubits);
      } apply {
          ReflectAboutAllOnes(inputQubits);
      }
  }
  \<close>
  \<open>within { A } apply { B }\<close> runs \<open>A\<close>, then \<open>B\<close>, then the adjoint of \<open>A\<close>.
\<close>

definition ReflectAboutUniform :: "nat list \<Rightarrow> qstate \<Rightarrow> error + qstate" where
  "ReflectAboutUniform inputQubits \<psi> =
     (let \<psi>1 = Adjoint_PrepareUniform inputQubits \<psi>;
          \<psi>2 = PrepareAllOnes inputQubits \<psi>1
      in case ReflectAboutAllOnes inputQubits \<psi>2 of
           Inl e \<Rightarrow> Inl e
         | Inr \<psi>3 \<Rightarrow> Inr (PrepareUniform inputQubits (Adjoint_PrepareAllOnes inputQubits \<psi>3)))"

text \<open>
  \<^verbatim>\<open>
  operation ReflectAboutMarked(idxMarked : Int, inputQubits : Qubit[]) : Unit {
      use outputQubit = Qubit();
      within {
          X(outputQubit);
          H(outputQubit);
      } apply {
          (ControlledOnInt(idxMarked, X))(inputQubits, outputQubit);
      }
  }
  \<close>
\<close>

definition ReflectAboutMarked :: "int \<Rightarrow> nat list \<Rightarrow> qstate \<Rightarrow> error + qstate" where
  "ReflectAboutMarked idxMarked inputQubits \<psi> =
     (let outputQubit = nqubits \<psi>;
          \<psi>0 = allocate \<psi>;
          \<psi>1 = H outputQubit (X outputQubit \<psi>0)
      in case ControlledOnInt_X idxMarked inputQubits outputQubit \<psi>1 of
           Inl e \<Rightarrow> Inl e
         | Inr \<psi>2 \<Rightarrow> release (X outputQubit (H outputQubit \<psi>2)))"

text \<open>
  \<open>ForEach(MResetZ, qubits)\<close> measures and resets the qubits in order; the result at
  position \<open>i\<close> is the measurement of \<open>qubits[i]\<close>. \<open>ForEach_MResetZ qubits results \<psi>\<close> is
  the unnormalised state left after the measurements gave \<open>results\<close>.
\<close>

fun ForEach_MResetZ :: "nat list \<Rightarrow> Result list \<Rightarrow> qstate \<Rightarrow> qstate" where
  "ForEach_MResetZ (q # qs) (r # rs) \<psi> = ForEach_MResetZ qs rs (MResetZ q r \<psi>)"
| "ForEach_MResetZ _ _ \<psi> = \<psi>"

text \<open>A \<open>for\<close> loop over a range of integers, stopping at the first failure of its body.\<close>

fun for_loop :: "int list \<Rightarrow> (qstate \<Rightarrow> error + qstate) \<Rightarrow> qstate \<Rightarrow> error + qstate" where
  "for_loop [] body \<psi> = Inr \<psi>"
| "for_loop (i # rest) body \<psi> =
     (case body \<psi> of Inl e \<Rightarrow> Inl e | Inr \<psi>' \<Rightarrow> for_loop rest body \<psi>')"

text \<open>
  \<^verbatim>\<open>
  operation SearchForMarkedInput(nQubits : Int, idxMarked : Int) : Result[] {
      use qubits = Qubit[nQubits];
      PrepareUniform(qubits);
      for _ in 0..NIterations(nQubits) - 1 {
          ReflectAboutMarked(idxMarked, qubits);
          ReflectAboutUniform(qubits);
      }
      return ForEach(MResetZ, qubits);
  }
  \<close>
  The operation is probabilistic. The model returns its output distribution: the
  probability of each array of results.
\<close>

definition SearchForMarkedInput ::
  "double_arith \<Rightarrow> int \<Rightarrow> int \<Rightarrow> error + (Result list \<Rightarrow> real)" where
  "SearchForMarkedInput D nQubits idxMarked =
     (if nQubits < 0 then Inl InvalidArrayLength
      else
        let qubits = [0..<nat nQubits];
            \<psi>0 = PrepareUniform qubits (zero_state (nat nQubits))
        in case NIterations D nQubits of
             None \<Rightarrow> Inl NoIterationCount
           | Some nIterations \<Rightarrow>
               (case for_loop [0..nIterations - 1]
                       (\<lambda>\<psi>. case ReflectAboutMarked idxMarked qubits \<psi> of
                              Inl e \<Rightarrow> Inl e
                            | Inr \<psi>' \<Rightarrow> ReflectAboutUniform qubits \<psi>') \<psi>0 of
                  Inl e \<Rightarrow> Inl e
                | Inr \<psi> \<Rightarrow>
                    Inr (\<lambda>results. if length results = length qubits
                                   then norm2 (ForEach_MResetZ qubits results \<psi>) else 0)))"

text \<open>
  The notions the claims are stated with: the uniform superposition of \<open>n\<close> qubits, the
  reflection about a marked basis state, the gate sequence of \<open>ReflectAboutUniform\<close>, and
  the arrays of \<open>n\<close> results.
\<close>

definition uniform_superposition :: "nat \<Rightarrow> qstate" where
  "uniform_superposition n = tab n (\<lambda>bs. 1 / complex_of_real (sqrt (2 ^ n)))"

definition phase_flip :: "bool list \<Rightarrow> qstate \<Rightarrow> qstate" where
  "phase_flip marked \<psi> = tab (nqubits \<psi>) (\<lambda>bs. if bs = marked then - amp \<psi> bs else amp \<psi> bs)"

definition diffusion :: "nat list \<Rightarrow> qstate \<Rightarrow> qstate" where
  "diffusion qs \<psi> = fold H qs (fold X (rev qs)
       (Controlled_Z (butlast qs) (last qs) (fold X qs (fold H (rev qs) \<psi>))))"

definition outcomes :: "nat \<Rightarrow> Result list list" where
  "outcomes n = List.n_lists n [Zero, One]"


section \<open>The Cirq notebook\<close>

text \<open>
  The second notebook sends a Cirq circuit to the Honeywell API validator through the
  Azure Quantum SDK (\<open>azure-quantum[cirq]\<close> 0.19), which is not part of the repository:
  \<^verbatim>\<open>
  circuit = cirq.Circuit(cirq.H(q0), cirq.CNOT(q0, q1), cirq.measure(q0, q1, key='b'))
  result = service.run(program=circuit, repetitions=100)
  job = service.create_job(program=circuit, repetitions=100)
  result = job.results()
  \<close>
  The notebook records that \<open>service.run\<close> "returns a cirq.Result object", printed as
  \<open>b=00...0\<close> with one digit per repetition, that the validator "only returns zeros", and
  that \<open>job.results()\<close> "does not return a cirq.Result object. Instead it returns a
  dictionary that is specific to the Honeywell simulator", printed as
  \<open>{'m_b': ['00', ..., '00']}\<close> with one string per repetition and \<open>type(result)\<close>
  being \<open>dict\<close>.
\<close>

record circuit =
  measure_key :: string
  measured_qubits :: nat

definition notebook_circuit :: circuit where
  "notebook_circuit = \<lparr>measure_key = ''b'', measured_qubits = 2\<rparr>"

text \<open>
  A target executes a program for a number of repetitions and reports a dictionary from
  classical register names to one outcome string per repetition. It is a parameter of
  the model. The API validator is the target of the notebook: it reports the register
  of the measurement key \<open>b\<close> as \<open>m_b\<close> and every outcome as zeros.
\<close>

type_synonym target = "circuit \<Rightarrow> nat \<Rightarrow> (string \<times> string list) list"

definition api_validator :: target where
  "api_validator program repetitions =
     [(''m_'' @ measure_key program,
       replicate repetitions (replicate (measured_qubits program) CHR ''0''))]"

datatype py_object =
    CirqResult "(string \<times> int list) list"
  | PyDict "(string \<times> string list) list"

fun type_of :: "py_object \<Rightarrow> string" where
  "type_of (CirqResult m) = ''cirq.Result''"
| "type_of (PyDict d) = ''dict''"

fun keys_of :: "py_object \<Rightarrow> string list" where
  "keys_of (CirqResult m) = map fst m"
| "keys_of (PyDict d) = map fst d"

fun repetitions_of :: "py_object \<Rightarrow> nat list" where
  "repetitions_of (CirqResult m) = map (\<lambda>(k, v). length v) m"
| "repetitions_of (PyDict d) = map (\<lambda>(k, v). length v) d"

text \<open>
  \<open>create_job\<close> submits the program to the target and returns the job; \<open>job.results()\<close>
  waits for the job and returns the dictionary of the target as it is.
\<close>

record Job =
  job_program :: circuit
  job_repetitions :: nat

definition create_job :: "circuit \<Rightarrow> nat \<Rightarrow> Job" where
  "create_job program repetitions = \<lparr>job_program = program, job_repetitions = repetitions\<rparr>"

definition job_results :: "target \<Rightarrow> Job \<Rightarrow> py_object" where
  "job_results T job = PyDict (T (job_program job) (job_repetitions job))"

text \<open>
  Python's \<open>str.lstrip(chars)\<close> removes leading characters that occur in \<open>chars\<close>,
  \<open>str.startswith\<close> tests for a prefix, and \<open>int\<close> reads a string of decimal digits.
\<close>

definition lstrip :: "string \<Rightarrow> string \<Rightarrow> string" where
  "lstrip chars s = dropWhile (\<lambda>c. c \<in> set chars) s"

definition startswith :: "string \<Rightarrow> string \<Rightarrow> bool" where
  "startswith s prefix \<longleftrightarrow> take (length prefix) s = prefix"

definition py_int :: "string \<Rightarrow> int" where
  "py_int s = foldl (\<lambda>a c. 10 * a + (int (of_char c) - 48)) 0 s"

text \<open>
  The conversion of the Honeywell target from its dictionary to a \<open>cirq.Result\<close>:
  \<^verbatim>\<open>
  measurements = {
      key.lstrip("m_"): np.array([[int(_v)] for _v in value])
      for key, value in result.items() if key.startswith("m_")
  }
  return Result(params=param_resolver, measurements=measurements)
  \<close>
  and \<open>service.run\<close>, which creates the job, waits for its results and converts them:
  \<^verbatim>\<open>
  job = self.create_job(program=program, repetitions=repetitions, ...)
  result = job.results(timeout_seconds=timeout_seconds)
  return target._to_cirq_result(result=result, param_resolver=param_resolver)
  \<close>
\<close>

fun to_cirq_result :: "py_object \<Rightarrow> py_object" where
  "to_cirq_result (PyDict d) =
     CirqResult (map (\<lambda>(key, value). (lstrip ''m_'' key, map py_int value))
                  (filter (\<lambda>(key, value). startswith key ''m_'') d))"
| "to_cirq_result (CirqResult m) = CirqResult m"

definition service_run :: "target \<Rightarrow> circuit \<Rightarrow> nat \<Rightarrow> py_object" where
  "service_run T program repetitions =
     (let job = create_job program repetitions;
          result = job_results T job
      in to_cirq_result result)"

section \<open>The job lifecycle client of the specification\<close>

text \<open>
  Modelled from the spec: the repository contains no lifecycle client. The statuses, the
  error kinds and the abstract backend are those of sections 3, 6 and 7 of the
  specification. A job is its opaque handle; the backend reports the status of a handle
  at a given time and the raw result of a handle.
\<close>

datatype Status = Waiting | Executing | Succeeded | Failed | Cancelled

datatype client_error = DomainError | SubmissionError | PollingTimeout | BackendFailure

fun terminal :: "Status \<Rightarrow> bool" where
  "terminal Succeeded = True"
| "terminal Failed = True"
| "terminal Cancelled = True"
| "terminal _ = False"

type_synonym JobHandle = nat

type_synonym RawResult = "(string \<times> string list) list"

type_synonym ResultSet = "(string \<times> string list) list"

record backend =
  getStatus :: "JobHandle \<Rightarrow> nat \<Rightarrow> Status"
  getResult :: "JobHandle \<Rightarrow> RawResult"

text \<open>
  Modelled from the spec: result normalisation, which the repository does not contain.
  A ResultSet maps a declared measurement-register name to the per-shot bitstrings
  (section 3); the raw key \<open>m_b\<close> belongs to the register declared as \<open>b\<close> (section 8).
\<close>

definition register_name :: "string \<Rightarrow> string" where
  "register_name key = (if take 2 key = ''m_'' then drop 2 key else key)"

definition normalize :: "RawResult \<Rightarrow> ResultSet" where
  "normalize raw = map (\<lambda>(key, shots). (register_name key, shots)) raw"

definition registers :: "ResultSet \<Rightarrow> string list" where
  "registers rs = map fst rs"

definition shot_count :: "ResultSet \<Rightarrow> nat" where
  "shot_count rs = (case rs of [] \<Rightarrow> 0 | (name, shots) # _ \<Rightarrow> length shots)"

definition outcomes_of :: "ResultSet \<Rightarrow> string \<Rightarrow> string list option" where
  "outcomes_of rs name = map_of rs name"

text \<open>
  Modelled from the spec: \<open>blockUntilResult\<close>, which the repository does not contain
  (the notebook calls the SDK's blocking \<open>job.results()\<close> with no deadline). Sections 4.2,
  5 and 7: the client polls the status at a bounded interval of at least one tick until
  the status is terminal or the caller's deadline is exceeded; a succeeded job yields the
  normalized ResultSet, a failed or cancelled one BackendFailure, an exceeded deadline
  PollingTimeout. The job is returned with the outcome.
\<close>

function poll :: "backend \<Rightarrow> JobHandle \<Rightarrow> nat \<Rightarrow> nat \<Rightarrow> nat \<Rightarrow> client_error + Status" where
  "poll B job interval deadline now =
     (let s = getStatus B job now in
      if terminal s then Inr s
      else if deadline < now + max 1 interval then Inl PollingTimeout
      else poll B job interval deadline (now + max 1 interval))"
  by pat_completeness auto
termination
  by (relation "measure (\<lambda>(B, job, interval, deadline, now). Suc deadline - now)") auto

definition blockUntilResult ::
  "backend \<Rightarrow> JobHandle \<Rightarrow> nat \<Rightarrow> nat \<Rightarrow> nat \<Rightarrow> (client_error + ResultSet) \<times> JobHandle" where
  "blockUntilResult B job interval deadline now =
     (case poll B job interval deadline now of
        Inl e \<Rightarrow> (Inl e, job)
      | Inr s \<Rightarrow>
          (if s = Succeeded then (Inr (normalize (getResult B job)), job)
           else (Inl BackendFailure, job)))"


section \<open>Properties of the iteration count\<close>

subsection \<open>The shift\<close>

lemma shl_pow: 
  assumes "0 \<le> n" "n \<le> 62" shows "shl 1 n = 2 ^ nat n"
proof -
  have m: "n mod 64 = n" using assms by simp
  have lt: "nat n < 63" using assms by simp
  have p: "(2::int) ^ nat n < 2 ^ 63"
    using lt by (intro power_strict_increasing) auto
  have "push_bit (nat n) (1 :: 64 word) = word_of_int (2 ^ nat n)"
    by (simp add: push_bit_eq_mult)
  then have "sint (push_bit (nat n) (1 :: 64 word)) = signed_take_bit 63 ((2::int) ^ nat n)"
    by (simp only: sint_sbintrunc') simp
  also have "\<dots> = 2 ^ nat n"
  proof (rule signed_take_bit_int_eq_self)
    show "- (2 ^ 63) \<le> (2::int) ^ nat n"
      by (rule order_trans [of _ 0]) simp_all
    show "(2::int) ^ nat n < 2 ^ 63" by (rule p)
  qed
  finally show ?thesis by (simp add: shl_def m)
qed

lemma shl_63: "shl 1 63 = - (2 ^ 63)"
  by (simp add: shl_def)

lemma accurate_exact: "accurate exact"
  unfolding accurate_def exact_def
  using of_int_round_abs_le [where 'a = real] by (simp add: eps_def eta_def)

subsection \<open>Error bounds\<close>

lemma eps_small: "0 \<le> eps" "eps \<le> 1 / 10 ^ 6"
  by (simp_all add: eps_def)

lemma eta_small: "0 \<le> eta" "eta \<le> 1 / 10 ^ 15"
  by (simp_all add: eta_def)

lemma rnd_close:
  assumes "accurate D" "\<bar>x\<bar> \<le> 2 ^ 100"
  shows "\<bar>rnd D x - x\<bar> \<le> \<bar>x\<bar> / 10 ^ 6 + 1 / 10 ^ 15"
proof -
  have "\<bar>rnd D x - x\<bar> \<le> eps * \<bar>x\<bar> + eta"
    using assms by (simp add: accurate_def)
  moreover have "eps * \<bar>x\<bar> \<le> (1 / 10 ^ 6) * \<bar>x\<bar>"
    by (rule mult_right_mono) (use eps_small in auto)
  ultimately show ?thesis using eta_small by simp
qed

lemma ArcSin_close:
  assumes "accurate D" "\<bar>x\<bar> \<le> 1"
  shows "\<bar>ArcSin D x - arcsin x\<bar> \<le> \<bar>arcsin x\<bar> / 10 ^ 6 + 1 / 10 ^ 15"
proof -
  have "\<bar>ArcSin D x - arcsin x\<bar> \<le> eps * \<bar>arcsin x\<bar> + eta"
    using assms by (simp add: accurate_def)
  moreover have "eps * \<bar>arcsin x\<bar> \<le> (1 / 10 ^ 6) * \<bar>arcsin x\<bar>"
    by (rule mult_right_mono) (use eps_small in auto)
  ultimately show ?thesis using eta_small by simp
qed

lemma Round_close:
  assumes "accurate D" "\<bar>x\<bar> \<le> 2 ^ 62"
  shows "\<bar>real_of_int (Round D x) - x\<bar> \<le> 1 / 2"
  using assms by (simp add: accurate_def)

lemma rnd_between:
  assumes "accurate D" "0 \<le> lo" "lo \<le> x" "x \<le> hi" "hi \<le> 2 ^ 100"
  shows "lo * (1 - 1 / 10 ^ 6) - 1 / 10 ^ 15 \<le> rnd D x"
    and "rnd D x \<le> hi * (1 + 1 / 10 ^ 6) + 1 / 10 ^ 15"
proof -
  have "\<bar>x\<bar> \<le> 2 ^ 100" using assms by simp
  from rnd_close [OF assms(1) this]
  have c: "\<bar>rnd D x - x\<bar> \<le> x / 10 ^ 6 + 1 / 10 ^ 15" using assms by simp
  show "lo * (1 - 1 / 10 ^ 6) - 1 / 10 ^ 15 \<le> rnd D x"
    using c assms by (simp add: algebra_simps)
  show "rnd D x \<le> hi * (1 + 1 / 10 ^ 6) + 1 / 10 ^ 15"
    using c assms by (simp add: algebra_simps)
qed

lemma arcsin_ge_self:
  assumes "0 \<le> y" "y \<le> 1" shows "y \<le> arcsin y"
proof -
  have "0 \<le> arcsin y" using assms arcsin_le_arcsin [of 0 y] by simp
  then have "sin (arcsin y) \<le> arcsin y" by (rule sin_x_le_x)
  then show ?thesis using assms by simp
qed

lemma ArcSin_between:
  assumes "accurate D" "0 \<le> x" "x \<le> 1" "lo \<le> arcsin x" "arcsin x \<le> hi" "0 \<le> lo"
  shows "lo * (1 - 1 / 10 ^ 6) - 1 / 10 ^ 15 \<le> ArcSin D x"
    and "ArcSin D x \<le> hi * (1 + 1 / 10 ^ 6) + 1 / 10 ^ 15"
proof -
  have "\<bar>x\<bar> \<le> 1" using assms by simp
  from ArcSin_close [OF assms(1) this]
  have c: "\<bar>ArcSin D x - arcsin x\<bar> \<le> arcsin x / 10 ^ 6 + 1 / 10 ^ 15" using assms by simp
  show "lo * (1 - 1 / 10 ^ 6) - 1 / 10 ^ 15 \<le> ArcSin D x"
    using c assms by (simp add: algebra_simps)
  show "ArcSin D x \<le> hi * (1 + 1 / 10 ^ 6) + 1 / 10 ^ 15"
    using c assms by (simp add: algebra_simps)
qed

lemma NIterations_unfold:
  assumes "0 \<le> n" "n \<le> 62"
  shows "NIterations D n = Some (Round D (rnd D (rnd D (rnd D (0.25 * rnd D pi) /
       ArcSin D (rnd D (1 / rnd D (sqrt (rnd D (2 ^ nat n)))))) - 0.5)))"
  using assms by (simp add: NIterations_def shl_pow Sqrt_def PI_def IntAsDouble_def Let_def)

subsection \<open>Bounds on \<open>\<pi>\<close> and the arc sine\<close>

lemma pi_ge_3: "3 \<le> pi"
proof -
  have "sin (pi / 6) \<le> pi / 6" by (rule sin_x_le_x) simp
  then show ?thesis by (simp add: sin_30)
qed

lemma cos_ge_taylor:
  fixes x :: real assumes "0 \<le> x" shows "1 - x\<^sup>2 / 2 \<le> cos x"
proof -
  have "(\<lambda>t. cos t - 1 + t\<^sup>2 / 2) 0 \<le> (\<lambda>t. cos t - 1 + t\<^sup>2 / 2) x"
  proof (rule DERIV_nonneg_imp_nondecreasing [OF assms])
    fix t :: real assume "0 \<le> t" "t \<le> x"
    have "((\<lambda>t. cos t - 1 + t\<^sup>2 / 2) has_real_derivative (t - sin t)) (at t)"
      by (auto intro!: derivative_eq_intros)
    moreover have "0 \<le> t - sin t" using sin_x_le_x [OF \<open>0 \<le> t\<close>] by simp
    ultimately show "\<exists>y. ((\<lambda>t. cos t - 1 + t\<^sup>2 / 2) has_real_derivative y) (at t) \<and> 0 \<le> y"
      by blast
  qed
  then show ?thesis by simp
qed

lemma sin_ge_taylor:
  fixes x :: real assumes "0 \<le> x" shows "x - x ^ 3 / 6 \<le> sin x"
proof -
  have "(\<lambda>t. sin t - t + t ^ 3 / 6) 0 \<le> (\<lambda>t. sin t - t + t ^ 3 / 6) x"
  proof (rule DERIV_nonneg_imp_nondecreasing [OF assms])
    fix t :: real assume "0 \<le> t" "t \<le> x"
    have "((\<lambda>t. sin t - t + t ^ 3 / 6) has_real_derivative (cos t - 1 + t\<^sup>2 / 2)) (at t)"
      by (auto intro!: derivative_eq_intros)
    moreover have "0 \<le> cos t - 1 + t\<^sup>2 / 2" using cos_ge_taylor [OF \<open>0 \<le> t\<close>] by simp
    ultimately show "\<exists>y. ((\<lambda>t. sin t - t + t ^ 3 / 6) has_real_derivative y) (at t) \<and> 0 \<le> y"
      by blast
  qed
  then show ?thesis by simp
qed

lemma arcsin_le_taylor:
  fixes y t :: real
  assumes "0 \<le> y" "y \<le> t - t ^ 3 / 6" "0 \<le> t" "t \<le> 1"
  shows "arcsin y \<le> t"
proof -
  have s: "y \<le> sin t" using sin_ge_taylor [OF assms(3)] assms(2) by simp
  have "sin t \<le> 1" by simp
  with s have y1: "y \<le> 1" by linarith
  have "t \<le> pi / 2" using assms(4) pi_ge_3 by simp
  moreover have "- pi / 2 \<le> t" using assms(3) pi_ge_3 by simp
  ultimately show ?thesis
    using arcsin_le_iff [of y t] assms(1) y1 s by simp
qed

text \<open>The argument of ArcSin.\<close>

lemma arg_between:
  fixes N slo shi :: real
  assumes acc: "accurate D"
    and N: "1 \<le> N" "N \<le> 2 ^ 62"
    and slo: "1 \<le> slo" "slo\<^sup>2 \<le> N * (1 - 1 / 10 ^ 6) - 1 / 10 ^ 15"
    and shi: "shi \<le> 2 ^ 32" "N * (1 + 1 / 10 ^ 6) + 1 / 10 ^ 15 \<le> shi\<^sup>2" "0 \<le> shi"
  shows "1 / (shi * (1 + 1 / 10 ^ 6) + 1 / 10 ^ 15) * (1 - 1 / 10 ^ 6) - 1 / 10 ^ 15
           \<le> rnd D (1 / rnd D (sqrt (rnd D N)))"
    and "rnd D (1 / rnd D (sqrt (rnd D N)))
           \<le> 1 / (slo * (1 - 1 / 10 ^ 6) - 1 / 10 ^ 15) * (1 + 1 / 10 ^ 6) + 1 / 10 ^ 15"
proof -
  define a1 where "a1 = rnd D N"
  define a2 where "a2 = rnd D (sqrt a1)"
  have N100: "N \<le> 2 ^ 100" using N(2) by (rule order_trans) simp
  have a1: "N * (1 - 1 / 10 ^ 6) - 1 / 10 ^ 15 \<le> a1" "a1 \<le> N * (1 + 1 / 10 ^ 6) + 1 / 10 ^ 15"
    unfolding a1_def using rnd_between [OF acc _ order_refl order_refl N100] N(1) by simp_all
  have s1: "slo \<le> sqrt a1"
    by (rule real_le_rsqrt) (use a1(1) slo(2) in linarith)
  have s2: "sqrt a1 \<le> shi"
    by (rule real_le_lsqrt) (use a1(2) shi in auto)
  have shi100: "shi \<le> 2 ^ 100" using shi(1) by (rule order_trans) simp
  have a2: "slo * (1 - 1 / 10 ^ 6) - 1 / 10 ^ 15 \<le> a2" "a2 \<le> shi * (1 + 1 / 10 ^ 6) + 1 / 10 ^ 15"
    unfolding a2_def using rnd_between [OF acc _ s1 s2 shi100] slo(1) by simp_all
  have pos: "0 < slo * (1 - 1 / 10 ^ 6) - 1 / 10 ^ 15" using slo(1) by simp
  then have a2pos: "0 < a2" using a2(1) by linarith
  have t1: "1 / (shi * (1 + 1 / 10 ^ 6) + 1 / 10 ^ 15) \<le> 1 / a2"
    using a2(2) a2pos by (intro divide_left_mono) auto
  have t2: "1 / a2 \<le> 1 / (slo * (1 - 1 / 10 ^ 6) - 1 / 10 ^ 15)"
    using a2(1) pos a2pos by (intro divide_left_mono) auto
  have t3: "1 / (slo * (1 - 1 / 10 ^ 6) - 1 / 10 ^ 15) \<le> 2 ^ 100"
  proof -
    have "1 / (slo * (1 - 1 / 10 ^ 6) - 1 / 10 ^ 15) \<le> 1 / (1 / 2)"
      using slo(1) by (intro divide_left_mono) auto
    then show ?thesis by simp
  qed
  have t0: "0 \<le> 1 / (shi * (1 + 1 / 10 ^ 6) + 1 / 10 ^ 15)" using shi(3) by simp
  show "1 / (shi * (1 + 1 / 10 ^ 6) + 1 / 10 ^ 15) * (1 - 1 / 10 ^ 6) - 1 / 10 ^ 15
           \<le> rnd D (1 / rnd D (sqrt (rnd D N)))"
    using rnd_between(1) [OF acc t0 t1 t2 t3] by (simp add: a2_def a1_def)
  show "rnd D (1 / rnd D (sqrt (rnd D N)))
           \<le> 1 / (slo * (1 - 1 / 10 ^ 6) - 1 / 10 ^ 15) * (1 + 1 / 10 ^ 6) + 1 / 10 ^ 15"
    using rnd_between(2) [OF acc t0 t1 t2 t3] by (simp add: a2_def a1_def)
qed

text \<open>The quotient 0.25 * PI() / angle.\<close>

lemma quotient_between:
  fixes angle alo ahi :: real
  assumes acc: "accurate D"
    and a: "1 / 10 ^ 10 \<le> alo" "alo \<le> angle" "angle \<le> ahi"
  shows "7499 / 10000 / ahi * (1 - 1 / 10 ^ 6) - 1 / 10 ^ 15 \<le> rnd D (rnd D (0.25 * rnd D pi) / angle)"
    and "rnd D (rnd D (0.25 * rnd D pi) / angle) \<le> 10001 / 10000 / alo * (1 + 1 / 10 ^ 6) + 1 / 10 ^ 15"
proof -
  define p where "p = rnd D pi"
  define b1 where "b1 = rnd D (0.25 * p)"
  have p: "3 * (1 - 1 / 10 ^ 6) - 1 / 10 ^ 15 \<le> p" "p \<le> 4 * (1 + 1 / 10 ^ 6) + 1 / 10 ^ 15"
    unfolding p_def using rnd_between [OF acc _ pi_ge_3, of 4] pi_less_4 by simp_all
  have q: "29999 / 40000 \<le> 0.25 * p" "0.25 * p \<le> 40001 / 40000"
    using p by simp_all
  have b1: "7499 / 10000 \<le> b1" "b1 \<le> 10001 / 10000"
    unfolding b1_def using rnd_between [OF acc _ q, simplified] by simp_all
  have apos: "0 < alo" "0 < angle" "0 < ahi" using a by simp_all
  have c1: "7499 / 10000 / ahi \<le> b1 / angle"
    using b1 a apos by (intro frac_le) auto
  have c2: "b1 / angle \<le> 10001 / 10000 / alo"
    using b1 a apos by (intro frac_le) auto
  have c3: "10001 / 10000 / alo \<le> (2::real) ^ 100"
  proof -
    have "10001 / 10000 / alo \<le> 10001 / 10000 / (1 / 10 ^ 10)"
      using a(1) apos by (intro divide_left_mono) auto
    then show ?thesis by simp
  qed
  have c0: "0 \<le> 7499 / 10000 / ahi" using apos by simp
  show "7499 / 10000 / ahi * (1 - 1 / 10 ^ 6) - 1 / 10 ^ 15 \<le> rnd D (rnd D (0.25 * rnd D pi) / angle)"
    using rnd_between(1) [OF acc c0 c1 c2 c3] by (simp add: b1_def p_def)
  show "rnd D (rnd D (0.25 * rnd D pi) / angle) \<le> 10001 / 10000 / alo * (1 + 1 / 10 ^ 6) + 1 / 10 ^ 15"
    using rnd_between(2) [OF acc c0 c1 c2 c3] by (simp add: b1_def p_def)
qed

subsection \<open>Values of the iteration count\<close>

lemma NIterations_3: 
  assumes acc: "accurate D" shows "NIterations D 3 = Some 2"
proof -
  define a3 where "a3 = rnd D (1 / rnd D (sqrt (rnd D 8)))"
  define angle where "angle = ArcSin D a3"
  define b2 where "b2 = rnd D (rnd D (0.25 * rnd D pi) / angle)"
  define b3 where "b3 = rnd D (b2 - 0.5)"
  have a3: "352 / 1000 \<le> a3" "a3 \<le> 3547 / 10000"
    unfolding a3_def
    using arg_between [OF acc, of 8 "282 / 100" "284 / 100"]
    by (simp_all add: power2_eq_square)
  have th1: "352 / 1000 \<le> arcsin a3"
    using arcsin_ge_self [of a3] a3 by simp
  have th2: "arcsin a3 \<le> 363 / 1000"
    by (rule arcsin_le_taylor) (use a3 in \<open>simp_all add: power3_eq_cube\<close>)
  have angle: "3519 / 10000 \<le> angle" "angle \<le> 3631 / 10000"
    unfolding angle_def
    using ArcSin_between [OF acc _ _ th1 th2] a3 by simp_all
  have b2: "206 / 100 \<le> b2" "b2 \<le> 285 / 100"
    unfolding b2_def
    using quotient_between [OF acc _ angle] by simp_all
  have d: "156 / 100 \<le> b2 - 0.5" "b2 - 0.5 \<le> 235 / 100"
    using b2 by simp_all
  have b3: "155 / 100 \<le> b3" "b3 \<le> 236 / 100"
    unfolding b3_def using rnd_between [OF acc _ d] by simp_all
  have "\<bar>real_of_int (Round D b3) - b3\<bar> \<le> 1 / 2"
    by (rule Round_close [OF acc]) (use b3 in simp)
  then have "1 < real_of_int (Round D b3)" "real_of_int (Round D b3) < 3"
    using b3 by linarith+
  then have "Round D b3 = 2" by linarith
  then show ?thesis
    using NIterations_unfold [of 3 D]
    by (simp add: b3_def b2_def angle_def a3_def)
qed

lemma NIterations_nonneg:
  assumes acc: "accurate D" and n: "1 \<le> n" "n \<le> 62"
  shows "\<exists>k. NIterations D n = Some k \<and> 0 \<le> k"
proof -
  define N :: real where "N = 2 ^ nat n"
  define a3 where "a3 = rnd D (1 / rnd D (sqrt (rnd D N)))"
  define angle where "angle = ArcSin D a3"
  define b2 where "b2 = rnd D (rnd D (0.25 * rnd D pi) / angle)"
  define b3 where "b3 = rnd D (b2 - 0.5)"
  have "(2::real) ^ 1 \<le> 2 ^ nat n" using n by (intro power_increasing) auto
  then have N1: "2 \<le> N" by (simp add: N_def)
  have "(2::real) ^ nat n \<le> 2 ^ 62" using n by (intro power_increasing) auto
  then have N2: "N \<le> 2 ^ 62" by (simp add: N_def)
  have a3: "2 / 10 ^ 10 \<le> a3" "a3 \<le> 72 / 100"
    unfolding a3_def
    using arg_between [OF acc _ N2, of "14 / 10" "2 ^ 32"] N1 N2
    by (simp_all add: power2_eq_square)
  have th1: "2 / 10 ^ 10 \<le> arcsin a3"
    using arcsin_ge_self [of a3] a3 by simp
  have "arcsin a3 \<le> pi / 2" using arcsin_ubound [of a3] a3 by simp
  then have th2: "arcsin a3 \<le> 2" using pi_less_4 by simp
  have angle: "1 / 10 ^ 10 \<le> angle" "angle \<le> 2001 / 1000"
    unfolding angle_def
    using ArcSin_between [OF acc _ _ th1 th2] a3 by simp_all
  have b2: "37 / 100 \<le> b2" "b2 \<le> 2 * 10 ^ 10"
    unfolding b2_def
    using quotient_between [OF acc order_refl angle] by simp_all
  have "\<bar>b2 - 0.5\<bar> \<le> 2 ^ 100" using b2 by simp
  from rnd_close [OF acc this]
  have c3: "\<bar>b3 - (b2 - 0.5)\<bar> \<le> \<bar>b2 - 0.5\<bar> / 10 ^ 6 + 1 / 10 ^ 15"
    by (simp add: b3_def)
  have b3l: "- (14 / 100) \<le> b3" using c3 b2 by (auto simp: abs_if field_simps split: if_splits)
  have b3u: "b3 \<le> 3 * 10 ^ 10" using c3 b2 by (auto simp: abs_if field_simps split: if_splits)
  note b3 = b3l b3u
  have "\<bar>real_of_int (Round D b3) - b3\<bar> \<le> 1 / 2"
    by (rule Round_close [OF acc]) (use b3 in simp)
  then have "- 1 < real_of_int (Round D b3)"
    using b3 by linarith
  then have "0 \<le> Round D b3" by linarith
  then show ?thesis
    using NIterations_unfold [of n D] n
    by (simp add: b3_def b2_def angle_def a3_def N_def)
qed

lemma NIterations_0:
  assumes acc: "accurate D" shows "NIterations D 0 = Some 0"
proof -
  define angle where "angle = ArcSin D 1"
  define p where "p = rnd D pi"
  define b1 where "b1 = rnd D (0.25 * p)"
  define b2 where "b2 = rnd D (b1 / angle)"
  define b3 where "b3 = rnd D (b2 - 0.5)"
  have one: "rnd D 1 = 1"
    using acc unfolding accurate_def by (metis abs_one of_int_1 one_le_numeral one_le_power)
  have pi3: "3 \<le> pi" by (rule pi_ge_3)
  have pi4: "pi \<le> 4" using pi_less_4 by simp
  have "\<bar>angle - pi / 2\<bar> \<le> \<bar>pi / 2\<bar> / 10 ^ 6 + 1 / 10 ^ 15"
    unfolding angle_def using ArcSin_close [OF acc, of 1] by simp
  then have angle: "49999 / 100000 * pi \<le> angle" "angle \<le> 50001 / 100000 * pi"
    using pi3 by simp_all
  have "\<bar>p - pi\<bar> \<le> \<bar>pi\<bar> / 10 ^ 6 + 1 / 10 ^ 15"
    unfolding p_def using rnd_close [OF acc, of pi] pi4 by simp
  then have p: "99999 / 100000 * pi \<le> p" "p \<le> 100001 / 100000 * pi"
    using pi3 by simp_all
  have "\<bar>b1 - 0.25 * p\<bar> \<le> \<bar>0.25 * p\<bar> / 10 ^ 6 + 1 / 10 ^ 15"
    unfolding b1_def using rnd_close [OF acc, of "0.25 * p"] p pi3 pi4 by simp
  then have b1: "24999 / 100000 * pi \<le> b1" "b1 \<le> 25001 / 100000 * pi"
    using p pi3 by simp_all
  have apos: "0 < angle" using angle pi3 by simp
  have c: "4999 / 10000 \<le> b1 / angle" "b1 / angle \<le> 5001 / 10000"
    using angle b1 apos pi3 by (simp_all add: pos_le_divide_eq pos_divide_le_eq)
  have b2: "4998 / 10000 \<le> b2" "b2 \<le> 5002 / 10000"
    unfolding b2_def using rnd_between [OF acc _ c] by simp_all
  have "\<bar>b2 - 0.5\<bar> \<le> 2 ^ 100" using b2 by simp
  from rnd_close [OF acc this]
  have c3: "\<bar>b3 - (b2 - 0.5)\<bar> \<le> \<bar>b2 - 0.5\<bar> / 10 ^ 6 + 1 / 10 ^ 15"
    by (simp add: b3_def)
  have b3l: "- (1 / 1000) \<le> b3" using c3 b2 by (auto simp: abs_if field_simps split: if_splits)
  have b3u: "b3 \<le> 1 / 1000" using c3 b2 by (auto simp: abs_if field_simps split: if_splits)
  note b3 = b3l b3u
  have "\<bar>real_of_int (Round D b3) - b3\<bar> \<le> 1 / 2"
    by (rule Round_close [OF acc]) (use b3 in simp)
  then have "- 1 < real_of_int (Round D b3)" "real_of_int (Round D b3) < 1"
    using b3 by linarith+
  then have "Round D b3 = 0" by linarith
  then show ?thesis
    using NIterations_unfold [of 0 D] one
    by (simp add: b3_def b2_def b1_def p_def angle_def)
qed

subsection \<open>Bounds on \<open>\<pi>\<close> to twelve digits\<close>

text \<open>Partial sums of the alternating series of the arc tangent enclose its value.\<close>

lemma arctan_partial:
  fixes x :: real
  assumes "0 \<le> x" "x \<le> 1"
  shows "(\<Sum>i<2*n. (-1)^i * (1 / real (i * 2 + 1) * x ^ (i * 2 + 1))) \<le> arctan x"
    and "arctan x \<le> (\<Sum>i<2*n+1. (-1)^i * (1 / real (i * 2 + 1) * x ^ (i * 2 + 1)))"
proof -
  let ?a = "\<lambda>n. 1 / real (n * 2 + 1) * x ^ (n * 2 + 1)"
  have z: "?a \<longlonglongrightarrow> 0"
    by (rule zeroseq_arctan_series) (use assms in simp)
  have p: "0 \<le> ?a k" for k using assms by simp
  have m: "?a (Suc k) \<le> ?a k" for k
  proof -
    have "x ^ (Suc k * 2 + 1) \<le> x ^ (k * 2 + 1)"
      using assms by (intro power_decreasing) auto
    moreover have "1 / real (Suc k * 2 + 1) \<le> 1 / real (k * 2 + 1)"
      by (intro divide_left_mono) auto
    ultimately show ?thesis using assms by (intro mult_mono) auto
  qed
  have s: "arctan x = (\<Sum>k. (-1)^k * ?a k)"
    by (rule arctan_series) (use assms in simp)
  show "(\<Sum>i<2*n. (-1)^i * ?a i) \<le> arctan x"
    unfolding s by (rule summable_Leibniz'(2) [of ?a, OF z p m])
  show "arctan x \<le> (\<Sum>i<2*n+1. (-1)^i * ?a i)"
    unfolding s by (rule summable_Leibniz'(4) [of ?a, OF z p m])
qed

lemma arctan_5:
  "1973955598498806 / 10 ^ 16 \<le> arctan (1 / 5)"
  "arctan (1 / 5) \<le> 1973955598498808 / 10 ^ 16"
  using arctan_partial(1) [of "1 / 5" 5] arctan_partial(2) [of "1 / 5" 5]
  by (simp_all add: numeral_eq_Suc)

lemma arctan_239:
  "41840760020747 / 10 ^ 16 \<le> arctan (1 / 239)"
  "arctan (1 / 239) \<le> 41840760020748 / 10 ^ 16"
  using arctan_partial(1) [of "1 / 239" 2] arctan_partial(2) [of "1 / 239" 2]
  by (simp_all add: numeral_eq_Suc)

lemma pi_bounds: "3141592653589 / 10 ^ 12 \<le> pi" "pi \<le> 3141592653590 / 10 ^ 12"
proof -
  have "pi = 16 * arctan (1 / 5) - 4 * arctan (1 / 239)"
    using machin by simp
  then show "3141592653589 / 10 ^ 12 \<le> pi" "pi \<le> 3141592653590 / 10 ^ 12"
    using arctan_5 arctan_239 by simp_all
qed

subsection \<open>Enclosures of the arc sine and of the closed form\<close>

lemma cos_le_taylor:
  fixes x :: real assumes "0 \<le> x" shows "cos x \<le> 1 - x\<^sup>2 / 2 + x ^ 4 / 24"
proof -
  have "(\<lambda>t. cos t - 1 + t\<^sup>2 / 2 - t ^ 4 / 24) x \<le> (\<lambda>t. cos t - 1 + t\<^sup>2 / 2 - t ^ 4 / 24) 0"
  proof (rule DERIV_nonpos_imp_nonincreasing [OF assms])
    fix t :: real assume "0 \<le> t" "t \<le> x"
    have "((\<lambda>t. cos t - 1 + t\<^sup>2 / 2 - t ^ 4 / 24) has_real_derivative (- sin t + t - t ^ 3 / 6)) (at t)"
      by (auto intro!: derivative_eq_intros)
    moreover have "- sin t + t - t ^ 3 / 6 \<le> 0" using sin_ge_taylor [OF \<open>0 \<le> t\<close>] by simp
    ultimately show "\<exists>y. ((\<lambda>t. cos t - 1 + t\<^sup>2 / 2 - t ^ 4 / 24) has_real_derivative y) (at t) \<and> y \<le> 0"
      by blast
  qed
  then show ?thesis by simp
qed

lemma sin_le_taylor:
  fixes x :: real assumes "0 \<le> x" shows "sin x \<le> x - x ^ 3 / 6 + x ^ 5 / 120"
proof -
  have "(\<lambda>t. sin t - t + t ^ 3 / 6 - t ^ 5 / 120) x \<le> (\<lambda>t. sin t - t + t ^ 3 / 6 - t ^ 5 / 120) 0"
  proof (rule DERIV_nonpos_imp_nonincreasing [OF assms])
    fix t :: real assume "0 \<le> t" "t \<le> x"
    have "((\<lambda>t. sin t - t + t ^ 3 / 6 - t ^ 5 / 120) has_real_derivative
            (cos t - 1 + t\<^sup>2 / 2 - t ^ 4 / 24)) (at t)"
      by (auto intro!: derivative_eq_intros)
    moreover have "cos t - 1 + t\<^sup>2 / 2 - t ^ 4 / 24 \<le> 0" using cos_le_taylor [OF \<open>0 \<le> t\<close>] by simp
    ultimately show "\<exists>y. ((\<lambda>t. sin t - t + t ^ 3 / 6 - t ^ 5 / 120) has_real_derivative y) (at t) \<and> y \<le> 0"
      by blast
  qed
  then show ?thesis by simp
qed

lemma arcsin_ge_taylor:
  fixes y t :: real
  assumes "0 \<le> t" "t \<le> 1" "t - t ^ 3 / 6 + t ^ 5 / 120 \<le> y" "y \<le> 1"
  shows "t \<le> arcsin y"
proof -
  have s: "sin t \<le> y" using sin_le_taylor [OF assms(1)] assms(3) by simp
  have "0 \<le> sin t" using assms(1,2) pi_ge_3 by (intro sin_ge_zero) auto
  with s have y0: "- 1 \<le> y" by linarith
  have "t \<le> pi / 2" using assms(2) pi_ge_3 by simp
  moreover have "- pi / 2 \<le> t" using assms(1) pi_ge_3 by simp
  ultimately show ?thesis
    using le_arcsin_iff [of y t] assms(4) y0 s by simp
qed

text \<open>
  Enclosures of \<open>\<surd>(2^n)\<close> and of the arc sine of its inverse, checked through the Taylor
  polynomials of the sine, place the closed form between \<open>m + 0.002\<close> and \<open>m + 0.998\<close>
  before the subtraction of one half.
\<close>

lemma closed_form_bracket:
  fixes slo shi tlo thi :: real and m :: int
  assumes s: "1 \<le> slo" "slo\<^sup>2 \<le> 2 ^ n" "2 ^ n \<le> shi\<^sup>2" "0 < shi"
    and tl: "0 < tlo" "tlo \<le> 1" "tlo - tlo ^ 3 / 6 + tlo ^ 5 / 120 \<le> 1 / shi"
    and th: "0 \<le> thi" "thi \<le> 1" "1 / slo \<le> thi - thi ^ 3 / 6"
    and m: "0 \<le> m" "(real_of_int m + 2 / 1000) * thi \<le> 3141592653589 / 10 ^ 12 / 4"
      "3141592653590 / 10 ^ 12 / 4 \<le> (real_of_int m + 998 / 1000) * tlo"
  shows "\<bar>0.25 * pi / arcsin (1 / sqrt (2 ^ n)) - 0.5 - real_of_int m\<bar> \<le> 498 / 1000"
proof -
  define y :: real where "y = 1 / sqrt (2 ^ n)"
  define a where "a = arcsin y"
  have r1: "slo \<le> sqrt (2 ^ n)" by (rule real_le_rsqrt) (rule s(2))
  have r2: "sqrt (2 ^ n) \<le> shi" by (rule real_le_lsqrt) (use s in auto)
  have rpos: "0 < sqrt ((2::real) ^ n)" by simp
  have y1: "1 / shi \<le> y" unfolding y_def using r2 rpos by (intro divide_left_mono) (use s in auto)
  have y2: "y \<le> 1 / slo" unfolding y_def using r1 s(1) by (intro divide_left_mono) auto
  have y0: "0 \<le> y" by (simp add: y_def)
  have "1 / slo \<le> 1" using s(1) by simp
  with y2 have yle: "y \<le> 1" by linarith
  have lo: "tlo \<le> a" unfolding a_def
    by (rule arcsin_ge_taylor) (use tl y1 yle in auto)
  have hi: "a \<le> thi" unfolding a_def
    by (rule arcsin_le_taylor) (use th y2 y0 in auto)
  have apos: "0 < a" using lo tl(1) by linarith
  have p: "3141592653589 / 10 ^ 12 / 4 \<le> 0.25 * pi" "0.25 * pi \<le> 3141592653590 / 10 ^ 12 / 4"
    using pi_bounds by simp_all
  have "(real_of_int m + 2 / 1000) * a \<le> (real_of_int m + 2 / 1000) * thi"
    using hi m(1) by (intro mult_left_mono) auto
  with m(2) p(1) have "(real_of_int m + 2 / 1000) * a \<le> 0.25 * pi" by linarith
  then have l: "real_of_int m + 2 / 1000 \<le> 0.25 * pi / a"
    using apos by (simp add: pos_le_divide_eq)
  have "(real_of_int m + 998 / 1000) * tlo \<le> (real_of_int m + 998 / 1000) * a"
    using lo m(1) by (intro mult_left_mono) auto
  with m(3) p(2) have "0.25 * pi \<le> (real_of_int m + 998 / 1000) * a" by linarith
  then have u: "0.25 * pi / a \<le> real_of_int m + 998 / 1000"
    using apos by (simp add: pos_divide_le_eq)
  from l u show ?thesis unfolding a_def y_def by linarith
qed

text \<open>
  For each \<open>n\<close> from 2 to 62 the real value \<open>0.25 \<pi> / arcsin(1 / \<surd>(2^n)) - 0.5\<close> is
  within 0.498 of an integer, so it is not within 0.002 of a rounding tie.
\<close>

lemma margin_2:
  "\<bar>0.25 * pi / arcsin (1 / sqrt (2 ^ 2)) - 0.5 - real_of_int 1\<bar> \<le> 498 / 1000"
  by (rule closed_form_bracket [where slo = "2" and shi = "2"
        and tlo = "5235960782913895 / 10 ^ 16" and thi = "5239923194316134 / 10 ^ 16"])
    (simp_all add: power_divide)

lemma margin_3:
  "\<bar>0.25 * pi / arcsin (1 / sqrt (2 ^ 3)) - 0.5 - real_of_int 2\<bar> \<le> 498 / 1000"
  by (rule closed_form_bracket [where slo = "282842712474619 / 10 ^ 14" and shi = "282842712474620 / 10 ^ 14"
        and tlo = "3613669227287078 / 10 ^ 16" and thi = "3614287469576160 / 10 ^ 16"])
    (simp_all add: power_divide)

lemma margin_4:
  "\<bar>0.25 * pi / arcsin (1 / sqrt (2 ^ 4)) - 0.5 - real_of_int 3\<bar> \<le> 498 / 1000"
  by (rule closed_form_bracket [where slo = "4" and shi = "4"
        and tlo = "2526802387006649 / 10 ^ 16" and thi = "2526905556000342 / 10 ^ 16"])
    (simp_all add: power_divide)

lemma margin_5:
  "\<bar>0.25 * pi / arcsin (1 / sqrt (2 ^ 5)) - 0.5 - real_of_int 4\<bar> \<le> 498 / 1000"
  by (rule closed_form_bracket [where slo = "565685424949238 / 10 ^ 14" and shi = "565685424949239 / 10 ^ 14"
        and tlo = "1777105994457387 / 10 ^ 16" and thi = "1777123732652516 / 10 ^ 16"])
    (simp_all add: power_divide)

lemma margin_6:
  "\<bar>0.25 * pi / arcsin (1 / sqrt (2 ^ 6)) - 0.5 - real_of_int 6\<bar> \<le> 498 / 1000"
  by (rule closed_form_bracket [where slo = "8" and shi = "8"
        and tlo = "1253278310466502 / 10 ^ 16" and thi = "1253281403667381 / 10 ^ 16"])
    (simp_all add: power_divide)

lemma margin_7:
  "\<bar>0.25 * pi / arcsin (1 / sqrt (2 ^ 7)) - 0.5 - real_of_int 8\<bar> \<le> 498 / 1000"
  by (rule closed_form_bracket [where slo = "113137084989847 / 10 ^ 13" and shi = "113137084989848 / 10 ^ 13"
        and tlo = "8850384313338167 / 10 ^ 17" and thi = "8850389744536865 / 10 ^ 17"])
    (simp_all add: power_divide)

lemma margin_8:
  "\<bar>0.25 * pi / arcsin (1 / sqrt (2 ^ 8)) - 0.5 - real_of_int 12\<bar> \<le> 498 / 1000"
  by (rule closed_form_bracket [where slo = "16" and shi = "16"
        and tlo = "6254076179555579 / 10 ^ 17" and thi = "6254077136437394 / 10 ^ 17"])
    (simp_all add: power_divide)

lemma margin_9:
  "\<bar>0.25 * pi / arcsin (1 / sqrt (2 ^ 9)) - 0.5 - real_of_int 17\<bar> \<le> 498 / 1000"
  by (rule closed_form_bracket [where slo = "226274169979695 / 10 ^ 13" and shi = "226274169979696 / 10 ^ 13"
        and tlo = "4420857260714204 / 10 ^ 17" and thi = "4420857429584685 / 10 ^ 17"])
    (simp_all add: power_divide)

lemma margin_10:
  "\<bar>0.25 * pi / arcsin (1 / sqrt (2 ^ 10)) - 0.5 - real_of_int 25\<bar> \<le> 498 / 1000"
  by (rule closed_form_bracket [where slo = "32" and shi = "32"
        and tlo = "3125508849948786 / 10 ^ 17" and thi = "3125508879776111 / 10 ^ 17"])
    (simp_all add: power_divide)

lemma margin_11:
  "\<bar>0.25 * pi / arcsin (1 / sqrt (2 ^ 11)) - 0.5 - real_of_int 35\<bar> \<le> 498 / 1000"
  by (rule closed_form_bracket [where slo = "452548339959390 / 10 ^ 13" and shi = "452548339959391 / 10 ^ 13"
        and tlo = "2209888557285697 / 10 ^ 17" and thi = "2209888562556270 / 10 ^ 17"])
    (simp_all add: power_divide)

lemma margin_12:
  "\<bar>0.25 * pi / arcsin (1 / sqrt (2 ^ 12)) - 0.5 - real_of_int 50\<bar> \<le> 498 / 1000"
  by (rule closed_form_bracket [where slo = "64" and shi = "64"
        and tlo = "1562563585273688 / 10 ^ 17" and thi = "1562563586205209 / 10 ^ 17"])
    (simp_all add: power_divide)

lemma margin_13:
  "\<bar>0.25 * pi / arcsin (1 / sqrt (2 ^ 13)) - 0.5 - real_of_int 71\<bar> \<le> 498 / 1000"
  by (rule closed_form_bracket [where slo = "905096679918780 / 10 ^ 13" and shi = "905096679918781 / 10 ^ 13"
        and tlo = "1104876825158045 / 10 ^ 17" and thi = "1104876825322702 / 10 ^ 17"])
    (simp_all add: power_divide)

lemma margin_14:
  "\<bar>0.25 * pi / arcsin (1 / sqrt (2 ^ 14)) - 0.5 - real_of_int 100\<bar> \<le> 498 / 1000"
  by (rule closed_form_bracket [where slo = "128" and shi = "128"
        and tlo = "7812579475042565 / 10 ^ 18" and thi = "7812579475333622 / 10 ^ 18"])
    (simp_all add: power_divide)

lemma margin_15:
  "\<bar>0.25 * pi / arcsin (1 / sqrt (2 ^ 15)) - 0.5 - real_of_int 142\<bar> \<le> 498 / 1000"
  by (rule closed_form_bracket [where slo = "181019335983756 / 10 ^ 12" and shi = "181019335983757 / 10 ^ 12"
        and tlo = "5524299826304756 / 10 ^ 18" and thi = "5524299826356239 / 10 ^ 18"])
    (simp_all add: power_divide)

lemma margin_16:
  "\<bar>0.25 * pi / arcsin (1 / sqrt (2 ^ 16)) - 0.5 - real_of_int 201\<bar> \<le> 498 / 1000"
  by (rule closed_form_bracket [where slo = "256" and shi = "256"
        and tlo = "3906259934175674 / 10 ^ 18" and thi = "3906259934184772 / 10 ^ 18"])
    (simp_all add: power_divide)

lemma margin_17:
  "\<bar>0.25 * pi / arcsin (1 / sqrt (2 ^ 17)) - 0.5 - real_of_int 284\<bar> \<le> 498 / 1000"
  by (rule closed_form_bracket [where slo = "362038671967512 / 10 ^ 12" and shi = "362038671967513 / 10 ^ 12"
        and tlo = "2762139376259379 / 10 ^ 18" and thi = "2762139376260997 / 10 ^ 18"])
    (simp_all add: power_divide)

lemma margin_18:
  "\<bar>0.25 * pi / arcsin (1 / sqrt (2 ^ 18)) - 0.5 - real_of_int 402\<bar> \<le> 498 / 1000"
  by (rule closed_form_bracket [where slo = "512" and shi = "512"
        and tlo = "1953126241765563 / 10 ^ 18" and thi = "1953126241765850 / 10 ^ 18"])
    (simp_all add: power_divide)

lemma margin_19:
  "\<bar>0.25 * pi / arcsin (1 / sqrt (2 ^ 19)) - 0.5 - real_of_int 568\<bar> \<le> 498 / 1000"
  by (rule closed_form_bracket [where slo = "724077343935024 / 10 ^ 12" and shi = "724077343935025 / 10 ^ 12"
        and tlo = "1381068371035022 / 10 ^ 18" and thi = "1381068371035077 / 10 ^ 18"])
    (simp_all add: power_divide)

lemma margin_20:
  "\<bar>0.25 * pi / arcsin (1 / sqrt (2 ^ 20)) - 0.5 - real_of_int 804\<bar> \<le> 498 / 1000"
  by (rule closed_form_bracket [where slo = "1024" and shi = "1024"
        and tlo = "9765626552204956 / 10 ^ 19" and thi = "9765626552205047 / 10 ^ 19"])
    (simp_all add: power_divide)

lemma margin_21:
  "\<bar>0.25 * pi / arcsin (1 / sqrt (2 ^ 21)) - 0.5 - real_of_int 1137\<bar> \<le> 498 / 1000"
  by (rule closed_form_bracket [where slo = "144815468787004 / 10 ^ 11" and shi = "144815468787005 / 10 ^ 11"
        and tlo = "6905340208812081 / 10 ^ 19" and thi = "6905340208812148 / 10 ^ 19"])
    (simp_all add: power_divide)

lemma margin_22:
  "\<bar>0.25 * pi / arcsin (1 / sqrt (2 ^ 22)) - 0.5 - real_of_int 1608\<bar> \<le> 498 / 1000"
  by (rule closed_form_bracket [where slo = "2048" and shi = "2048"
        and tlo = "4882812694025556 / 10 ^ 19" and thi = "4882812694025561 / 10 ^ 19"])
    (simp_all add: power_divide)

lemma margin_23:
  "\<bar>0.25 * pi / arcsin (1 / sqrt (2 ^ 23)) - 0.5 - real_of_int 2274\<bar> \<le> 498 / 1000"
  by (rule closed_form_bracket [where slo = "289630937574009 / 10 ^ 11" and shi = "289630937574010 / 10 ^ 11"
        and tlo = "3452669898610826 / 10 ^ 19" and thi = "3452669898610841 / 10 ^ 19"])
    (simp_all add: power_divide)

lemma margin_24:
  "\<bar>0.25 * pi / arcsin (1 / sqrt (2 ^ 24)) - 0.5 - real_of_int 3216\<bar> \<le> 498 / 1000"
  by (rule closed_form_bracket [where slo = "4096" and shi = "4096"
        and tlo = "2441406274253191 / 10 ^ 19" and thi = "2441406274253194 / 10 ^ 19"])
    (simp_all add: power_divide)

lemma margin_25:
  "\<bar>0.25 * pi / arcsin (1 / sqrt (2 ^ 25)) - 0.5 - real_of_int 4549\<bar> \<le> 498 / 1000"
  by (rule closed_form_bracket [where slo = "579261875148019 / 10 ^ 11" and shi = "579261875148020 / 10 ^ 11"
        and tlo = "1726334923581016 / 10 ^ 19" and thi = "1726334923581022 / 10 ^ 19"])
    (simp_all add: power_divide)

lemma margin_26:
  "\<bar>0.25 * pi / arcsin (1 / sqrt (2 ^ 26)) - 0.5 - real_of_int 6433\<bar> \<le> 498 / 1000"
  by (rule closed_form_bracket [where slo = "8192" and shi = "8192"
        and tlo = "1220703128031648 / 10 ^ 19" and thi = "1220703128031651 / 10 ^ 19"])
    (simp_all add: power_divide)

lemma margin_27:
  "\<bar>0.25 * pi / arcsin (1 / sqrt (2 ^ 27)) - 0.5 - real_of_int 9099\<bar> \<le> 498 / 1000"
  by (rule closed_form_bracket [where slo = "115852375029603 / 10 ^ 10" and shi = "115852375029604 / 10 ^ 10"
        and tlo = "8631674585749590 / 10 ^ 20" and thi = "8631674585749668 / 10 ^ 20"])
    (simp_all add: power_divide)

lemma margin_28:
  "\<bar>0.25 * pi / arcsin (1 / sqrt (2 ^ 28)) - 0.5 - real_of_int 12867\<bar> \<le> 498 / 1000"
  by (rule closed_form_bracket [where slo = "16384" and shi = "16384"
        and tlo = "6103515628789560 / 10 ^ 20" and thi = "6103515628789563 / 10 ^ 20"])
    (simp_all add: power_divide)

lemma margin_29:
  "\<bar>0.25 * pi / arcsin (1 / sqrt (2 ^ 29)) - 0.5 - real_of_int 18198\<bar> \<le> 498 / 1000"
  by (rule closed_form_bracket [where slo = "231704750059207 / 10 ^ 10" and shi = "231704750059208 / 10 ^ 10"
        and tlo = "4315837288855358 / 10 ^ 20" and thi = "4315837288855379 / 10 ^ 20"])
    (simp_all add: power_divide)

lemma margin_30:
  "\<bar>0.25 * pi / arcsin (1 / sqrt (2 ^ 30)) - 0.5 - real_of_int 25735\<bar> \<le> 498 / 1000"
  by (rule closed_form_bracket [where slo = "32768" and shi = "32768"
        and tlo = "3051757812973694 / 10 ^ 20" and thi = "3051757812973697 / 10 ^ 20"])
    (simp_all add: power_divide)

lemma margin_31:
  "\<bar>0.25 * pi / arcsin (1 / sqrt (2 ^ 31)) - 0.5 - real_of_int 36396\<bar> \<le> 498 / 1000"
  by (rule closed_form_bracket [where slo = "463409500118415 / 10 ^ 10" and shi = "463409500118416 / 10 ^ 10"
        and tlo = "2157918643925248 / 10 ^ 20" and thi = "2157918643925256 / 10 ^ 20"])
    (simp_all add: power_divide)

lemma margin_32:
  "\<bar>0.25 * pi / arcsin (1 / sqrt (2 ^ 32)) - 0.5 - real_of_int 51471\<bar> \<le> 498 / 1000"
  by (rule closed_form_bracket [where slo = "65536" and shi = "65536"
        and tlo = "1525878906309210 / 10 ^ 20" and thi = "1525878906309213 / 10 ^ 20"])
    (simp_all add: power_divide)

lemma margin_33:
  "\<bar>0.25 * pi / arcsin (1 / sqrt (2 ^ 33)) - 0.5 - real_of_int 72792\<bar> \<le> 498 / 1000"
  by (rule closed_form_bracket [where slo = "926819000236831 / 10 ^ 10" and shi = "926819000236832 / 10 ^ 10"
        and tlo = "1078959321899820 / 10 ^ 20" and thi = "1078959321899824 / 10 ^ 20"])
    (simp_all add: power_divide)

lemma margin_34:
  "\<bar>0.25 * pi / arcsin (1 / sqrt (2 ^ 34)) - 0.5 - real_of_int 102943\<bar> \<le> 498 / 1000"
  by (rule closed_form_bracket [where slo = "131072" and shi = "131072"
        and tlo = "7629394531324013 / 10 ^ 21" and thi = "7629394531324016 / 10 ^ 21"])
    (simp_all add: power_divide)

lemma margin_35:
  "\<bar>0.25 * pi / arcsin (1 / sqrt (2 ^ 35)) - 0.5 - real_of_int 145584\<bar> \<le> 498 / 1000"
  by (rule closed_form_bracket [where slo = "185363800047366 / 10 ^ 9" and shi = "185363800047367 / 10 ^ 9"
        and tlo = "5394796609420583 / 10 ^ 21" and thi = "5394796609420615 / 10 ^ 21"])
    (simp_all add: power_divide)

lemma margin_36:
  "\<bar>0.25 * pi / arcsin (1 / sqrt (2 ^ 36)) - 0.5 - real_of_int 205887\<bar> \<le> 498 / 1000"
  by (rule closed_form_bracket [where slo = "262144" and shi = "262144"
        and tlo = "3814697265634250 / 10 ^ 21" and thi = "3814697265634253 / 10 ^ 21"])
    (simp_all add: power_divide)

lemma margin_37:
  "\<bar>0.25 * pi / arcsin (1 / sqrt (2 ^ 37)) - 0.5 - real_of_int 291168\<bar> \<le> 498 / 1000"
  by (rule closed_form_bracket [where slo = "370727600094732 / 10 ^ 9" and shi = "370727600094733 / 10 ^ 9"
        and tlo = "2697398304700485 / 10 ^ 21" and thi = "2697398304700495 / 10 ^ 21"])
    (simp_all add: power_divide)

lemma margin_38:
  "\<bar>0.25 * pi / arcsin (1 / sqrt (2 ^ 38)) - 0.5 - real_of_int 411774\<bar> \<le> 498 / 1000"
  by (rule closed_form_bracket [where slo = "524288" and shi = "524288"
        and tlo = "1907348632813655 / 10 ^ 21" and thi = "1907348632813658 / 10 ^ 21"])
    (simp_all add: power_divide)

lemma margin_39:
  "\<bar>0.25 * pi / arcsin (1 / sqrt (2 ^ 39)) - 0.5 - real_of_int 582337\<bar> \<le> 498 / 1000"
  by (rule closed_form_bracket [where slo = "741455200189465 / 10 ^ 9" and shi = "741455200189466 / 10 ^ 9"
        and tlo = "1348699152349015 / 10 ^ 21" and thi = "1348699152349020 / 10 ^ 21"])
    (simp_all add: power_divide)

lemma margin_40:
  "\<bar>0.25 * pi / arcsin (1 / sqrt (2 ^ 40)) - 0.5 - real_of_int 823549\<bar> \<le> 498 / 1000"
  by (rule closed_form_bracket [where slo = "1048576" and shi = "1048576"
        and tlo = "9536743164063944 / 10 ^ 22" and thi = "9536743164063947 / 10 ^ 22"])
    (simp_all add: power_divide)

lemma margin_41:
  "\<bar>0.25 * pi / arcsin (1 / sqrt (2 ^ 41)) - 0.5 - real_of_int 1164675\<bar> \<le> 498 / 1000"
  by (rule closed_form_bracket [where slo = "148291040037893 / 10 ^ 8" and shi = "148291040037894 / 10 ^ 8"
        and tlo = "6743495761743512 / 10 ^ 22" and thi = "6743495761743560 / 10 ^ 22"])
    (simp_all add: power_divide)

lemma margin_42:
  "\<bar>0.25 * pi / arcsin (1 / sqrt (2 ^ 42)) - 0.5 - real_of_int 1647099\<bar> \<le> 498 / 1000"
  by (rule closed_form_bracket [where slo = "2097152" and shi = "2097152"
        and tlo = "4768371582031429 / 10 ^ 22" and thi = "4768371582031432 / 10 ^ 22"])
    (simp_all add: power_divide)

lemma margin_43:
  "\<bar>0.25 * pi / arcsin (1 / sqrt (2 ^ 43)) - 0.5 - real_of_int 2329350\<bar> \<le> 498 / 1000"
  by (rule closed_form_bracket [where slo = "296582080075786 / 10 ^ 8" and shi = "296582080075787 / 10 ^ 8"
        and tlo = "3371747880871575 / 10 ^ 22" and thi = "3371747880871589 / 10 ^ 22"])
    (simp_all add: power_divide)

lemma margin_44:
  "\<bar>0.25 * pi / arcsin (1 / sqrt (2 ^ 44)) - 0.5 - real_of_int 3294198\<bar> \<le> 498 / 1000"
  by (rule closed_form_bracket [where slo = "4194304" and shi = "4194304"
        and tlo = "2384185791015646 / 10 ^ 22" and thi = "2384185791015649 / 10 ^ 22"])
    (simp_all add: power_divide)

lemma margin_45:
  "\<bar>0.25 * pi / arcsin (1 / sqrt (2 ^ 45)) - 0.5 - real_of_int 4658700\<bar> \<le> 498 / 1000"
  by (rule closed_form_bracket [where slo = "593164160151572 / 10 ^ 8" and shi = "593164160151573 / 10 ^ 8"
        and tlo = "1685873940435765 / 10 ^ 22" and thi = "1685873940435771 / 10 ^ 22"])
    (simp_all add: power_divide)

lemma margin_46:
  "\<bar>0.25 * pi / arcsin (1 / sqrt (2 ^ 46)) - 0.5 - real_of_int 6588397\<bar> \<le> 498 / 1000"
  by (rule closed_form_bracket [where slo = "8388608" and shi = "8388608"
        and tlo = "1192092895507814 / 10 ^ 22" and thi = "1192092895507817 / 10 ^ 22"])
    (simp_all add: power_divide)

lemma margin_47:
  "\<bar>0.25 * pi / arcsin (1 / sqrt (2 ^ 47)) - 0.5 - real_of_int 9317400\<bar> \<le> 498 / 1000"
  by (rule closed_form_bracket [where slo = "118632832030314 / 10 ^ 7" and shi = "118632832030315 / 10 ^ 7"
        and tlo = "8429369702178775 / 10 ^ 23" and thi = "8429369702178849 / 10 ^ 23"])
    (simp_all add: power_divide)

lemma margin_48:
  "\<bar>0.25 * pi / arcsin (1 / sqrt (2 ^ 48)) - 0.5 - real_of_int 13176794\<bar> \<le> 498 / 1000"
  by (rule closed_form_bracket [where slo = "16777216" and shi = "16777216"
        and tlo = "5960464477539065 / 10 ^ 23" and thi = "5960464477539068 / 10 ^ 23"])
    (simp_all add: power_divide)

lemma margin_49:
  "\<bar>0.25 * pi / arcsin (1 / sqrt (2 ^ 49)) - 0.5 - real_of_int 18634801\<bar> \<le> 498 / 1000"
  by (rule closed_form_bracket [where slo = "237265664060628 / 10 ^ 7" and shi = "237265664060629 / 10 ^ 7"
        and tlo = "4214684851089401 / 10 ^ 23" and thi = "4214684851089422 / 10 ^ 23"])
    (simp_all add: power_divide)

lemma margin_50:
  "\<bar>0.25 * pi / arcsin (1 / sqrt (2 ^ 50)) - 0.5 - real_of_int 26353589\<bar> \<le> 498 / 1000"
  by (rule closed_form_bracket [where slo = "33554432" and shi = "33554432"
        and tlo = "2980232238769530 / 10 ^ 23" and thi = "2980232238769533 / 10 ^ 23"])
    (simp_all add: power_divide)

lemma margin_51:
  "\<bar>0.25 * pi / arcsin (1 / sqrt (2 ^ 51)) - 0.5 - real_of_int 37269603\<bar> \<le> 498 / 1000"
  by (rule closed_form_bracket [where slo = "474531328121257 / 10 ^ 7" and shi = "474531328121258 / 10 ^ 7"
        and tlo = "2107342425544699 / 10 ^ 23" and thi = "2107342425544707 / 10 ^ 23"])
    (simp_all add: power_divide)

lemma margin_52:
  "\<bar>0.25 * pi / arcsin (1 / sqrt (2 ^ 52)) - 0.5 - real_of_int 52707178\<bar> \<le> 498 / 1000"
  by (rule closed_form_bracket [where slo = "67108864" and shi = "67108864"
        and tlo = "1490116119384764 / 10 ^ 23" and thi = "1490116119384767 / 10 ^ 23"])
    (simp_all add: power_divide)

lemma margin_53:
  "\<bar>0.25 * pi / arcsin (1 / sqrt (2 ^ 53)) - 0.5 - real_of_int 74539206\<bar> \<le> 498 / 1000"
  by (rule closed_form_bracket [where slo = "949062656242515 / 10 ^ 7" and shi = "949062656242516 / 10 ^ 7"
        and tlo = "1053671212772349 / 10 ^ 23" and thi = "1053671212772353 / 10 ^ 23"])
    (simp_all add: power_divide)

lemma margin_54:
  "\<bar>0.25 * pi / arcsin (1 / sqrt (2 ^ 54)) - 0.5 - real_of_int 105414357\<bar> \<le> 498 / 1000"
  by (rule closed_form_bracket [where slo = "134217728" and shi = "134217728"
        and tlo = "7450580596923827 / 10 ^ 24" and thi = "7450580596923830 / 10 ^ 24"])
    (simp_all add: power_divide)

lemma margin_55:
  "\<bar>0.25 * pi / arcsin (1 / sqrt (2 ^ 55)) - 0.5 - real_of_int 149078413\<bar> \<le> 498 / 1000"
  by (rule closed_form_bracket [where slo = "189812531248503 / 10 ^ 6" and shi = "189812531248504 / 10 ^ 6"
        and tlo = "5268356063861728 / 10 ^ 24" and thi = "5268356063861758 / 10 ^ 24"])
    (simp_all add: power_divide)

lemma margin_56:
  "\<bar>0.25 * pi / arcsin (1 / sqrt (2 ^ 56)) - 0.5 - real_of_int 210828714\<bar> \<le> 498 / 1000"
  by (rule closed_form_bracket [where slo = "268435456" and shi = "268435456"
        and tlo = "3725290298461913 / 10 ^ 24" and thi = "3725290298461916 / 10 ^ 24"])
    (simp_all add: power_divide)

lemma margin_57:
  "\<bar>0.25 * pi / arcsin (1 / sqrt (2 ^ 57)) - 0.5 - real_of_int 298156826\<bar> \<le> 498 / 1000"
  by (rule closed_form_bracket [where slo = "379625062497006 / 10 ^ 6" and shi = "379625062497007 / 10 ^ 6"
        and tlo = "2634178031930870 / 10 ^ 24" and thi = "2634178031930880 / 10 ^ 24"])
    (simp_all add: power_divide)

lemma margin_58:
  "\<bar>0.25 * pi / arcsin (1 / sqrt (2 ^ 58)) - 0.5 - real_of_int 421657428\<bar> \<le> 498 / 1000"
  by (rule closed_form_bracket [where slo = "536870912" and shi = "536870912"
        and tlo = "1862645149230956 / 10 ^ 24" and thi = "1862645149230959 / 10 ^ 24"])
    (simp_all add: power_divide)

lemma margin_59:
  "\<bar>0.25 * pi / arcsin (1 / sqrt (2 ^ 59)) - 0.5 - real_of_int 596313653\<bar> \<le> 498 / 1000"
  by (rule closed_form_bracket [where slo = "759250124994012 / 10 ^ 6" and shi = "759250124994013 / 10 ^ 6"
        and tlo = "1317089015965436 / 10 ^ 24" and thi = "1317089015965441 / 10 ^ 24"])
    (simp_all add: power_divide)

lemma margin_60:
  "\<bar>0.25 * pi / arcsin (1 / sqrt (2 ^ 60)) - 0.5 - real_of_int 843314856\<bar> \<le> 498 / 1000"
  by (rule closed_form_bracket [where slo = "1073741824" and shi = "1073741824"
        and tlo = "9313225746154784 / 10 ^ 25" and thi = "9313225746154787 / 10 ^ 25"])
    (simp_all add: power_divide)

lemma margin_61:
  "\<bar>0.25 * pi / arcsin (1 / sqrt (2 ^ 61)) - 0.5 - real_of_int 1192627307\<bar> \<le> 498 / 1000"
  by (rule closed_form_bracket [where slo = "151850024998802 / 10 ^ 5" and shi = "151850024998803 / 10 ^ 5"
        and tlo = "6585445079827169 / 10 ^ 25" and thi = "6585445079827215 / 10 ^ 25"])
    (simp_all add: power_divide)

lemma margin_62:
  "\<bar>0.25 * pi / arcsin (1 / sqrt (2 ^ 62)) - 0.5 - real_of_int 1686629713\<bar> \<le> 498 / 1000"
  by (rule closed_form_bracket [where slo = "2147483648" and shi = "2147483648"
        and tlo = "4656612873077391 / 10 ^ 25" and thi = "4656612873077394 / 10 ^ 25"])
    (simp_all add: power_divide)

lemma closed_form_margin:
  assumes "2 \<le> n" "n \<le> 62"
  shows "\<exists>m::int. \<bar>0.25 * pi / arcsin (1 / sqrt (2 ^ n)) - 0.5 - real_of_int m\<bar> \<le> 498 / 1000"
proof -
  let ?Q = "\<lambda>n::nat. \<exists>m::int. \<bar>0.25 * pi / arcsin (1 / sqrt (2 ^ n)) - 0.5 - real_of_int m\<bar> \<le> 498 / 1000"
  have c63: "?Q k" if "63 \<le> k" "k \<le> 62" for k using that by simp
  have c62: "?Q k" if "62 \<le> k" "k \<le> 62" for k
  proof (cases "k = 62")
    case True
    then show ?thesis using margin_62 by blast
  next
    case False
    with that have "63 \<le> k" by simp
    then show ?thesis using that(2) by (rule c63)
  qed
  have c61: "?Q k" if "61 \<le> k" "k \<le> 62" for k
  proof (cases "k = 61")
    case True
    then show ?thesis using margin_61 by blast
  next
    case False
    with that have "62 \<le> k" by simp
    then show ?thesis using that(2) by (rule c62)
  qed
  have c60: "?Q k" if "60 \<le> k" "k \<le> 62" for k
  proof (cases "k = 60")
    case True
    then show ?thesis using margin_60 by blast
  next
    case False
    with that have "61 \<le> k" by simp
    then show ?thesis using that(2) by (rule c61)
  qed
  have c59: "?Q k" if "59 \<le> k" "k \<le> 62" for k
  proof (cases "k = 59")
    case True
    then show ?thesis using margin_59 by blast
  next
    case False
    with that have "60 \<le> k" by simp
    then show ?thesis using that(2) by (rule c60)
  qed
  have c58: "?Q k" if "58 \<le> k" "k \<le> 62" for k
  proof (cases "k = 58")
    case True
    then show ?thesis using margin_58 by blast
  next
    case False
    with that have "59 \<le> k" by simp
    then show ?thesis using that(2) by (rule c59)
  qed
  have c57: "?Q k" if "57 \<le> k" "k \<le> 62" for k
  proof (cases "k = 57")
    case True
    then show ?thesis using margin_57 by blast
  next
    case False
    with that have "58 \<le> k" by simp
    then show ?thesis using that(2) by (rule c58)
  qed
  have c56: "?Q k" if "56 \<le> k" "k \<le> 62" for k
  proof (cases "k = 56")
    case True
    then show ?thesis using margin_56 by blast
  next
    case False
    with that have "57 \<le> k" by simp
    then show ?thesis using that(2) by (rule c57)
  qed
  have c55: "?Q k" if "55 \<le> k" "k \<le> 62" for k
  proof (cases "k = 55")
    case True
    then show ?thesis using margin_55 by blast
  next
    case False
    with that have "56 \<le> k" by simp
    then show ?thesis using that(2) by (rule c56)
  qed
  have c54: "?Q k" if "54 \<le> k" "k \<le> 62" for k
  proof (cases "k = 54")
    case True
    then show ?thesis using margin_54 by blast
  next
    case False
    with that have "55 \<le> k" by simp
    then show ?thesis using that(2) by (rule c55)
  qed
  have c53: "?Q k" if "53 \<le> k" "k \<le> 62" for k
  proof (cases "k = 53")
    case True
    then show ?thesis using margin_53 by blast
  next
    case False
    with that have "54 \<le> k" by simp
    then show ?thesis using that(2) by (rule c54)
  qed
  have c52: "?Q k" if "52 \<le> k" "k \<le> 62" for k
  proof (cases "k = 52")
    case True
    then show ?thesis using margin_52 by blast
  next
    case False
    with that have "53 \<le> k" by simp
    then show ?thesis using that(2) by (rule c53)
  qed
  have c51: "?Q k" if "51 \<le> k" "k \<le> 62" for k
  proof (cases "k = 51")
    case True
    then show ?thesis using margin_51 by blast
  next
    case False
    with that have "52 \<le> k" by simp
    then show ?thesis using that(2) by (rule c52)
  qed
  have c50: "?Q k" if "50 \<le> k" "k \<le> 62" for k
  proof (cases "k = 50")
    case True
    then show ?thesis using margin_50 by blast
  next
    case False
    with that have "51 \<le> k" by simp
    then show ?thesis using that(2) by (rule c51)
  qed
  have c49: "?Q k" if "49 \<le> k" "k \<le> 62" for k
  proof (cases "k = 49")
    case True
    then show ?thesis using margin_49 by blast
  next
    case False
    with that have "50 \<le> k" by simp
    then show ?thesis using that(2) by (rule c50)
  qed
  have c48: "?Q k" if "48 \<le> k" "k \<le> 62" for k
  proof (cases "k = 48")
    case True
    then show ?thesis using margin_48 by blast
  next
    case False
    with that have "49 \<le> k" by simp
    then show ?thesis using that(2) by (rule c49)
  qed
  have c47: "?Q k" if "47 \<le> k" "k \<le> 62" for k
  proof (cases "k = 47")
    case True
    then show ?thesis using margin_47 by blast
  next
    case False
    with that have "48 \<le> k" by simp
    then show ?thesis using that(2) by (rule c48)
  qed
  have c46: "?Q k" if "46 \<le> k" "k \<le> 62" for k
  proof (cases "k = 46")
    case True
    then show ?thesis using margin_46 by blast
  next
    case False
    with that have "47 \<le> k" by simp
    then show ?thesis using that(2) by (rule c47)
  qed
  have c45: "?Q k" if "45 \<le> k" "k \<le> 62" for k
  proof (cases "k = 45")
    case True
    then show ?thesis using margin_45 by blast
  next
    case False
    with that have "46 \<le> k" by simp
    then show ?thesis using that(2) by (rule c46)
  qed
  have c44: "?Q k" if "44 \<le> k" "k \<le> 62" for k
  proof (cases "k = 44")
    case True
    then show ?thesis using margin_44 by blast
  next
    case False
    with that have "45 \<le> k" by simp
    then show ?thesis using that(2) by (rule c45)
  qed
  have c43: "?Q k" if "43 \<le> k" "k \<le> 62" for k
  proof (cases "k = 43")
    case True
    then show ?thesis using margin_43 by blast
  next
    case False
    with that have "44 \<le> k" by simp
    then show ?thesis using that(2) by (rule c44)
  qed
  have c42: "?Q k" if "42 \<le> k" "k \<le> 62" for k
  proof (cases "k = 42")
    case True
    then show ?thesis using margin_42 by blast
  next
    case False
    with that have "43 \<le> k" by simp
    then show ?thesis using that(2) by (rule c43)
  qed
  have c41: "?Q k" if "41 \<le> k" "k \<le> 62" for k
  proof (cases "k = 41")
    case True
    then show ?thesis using margin_41 by blast
  next
    case False
    with that have "42 \<le> k" by simp
    then show ?thesis using that(2) by (rule c42)
  qed
  have c40: "?Q k" if "40 \<le> k" "k \<le> 62" for k
  proof (cases "k = 40")
    case True
    then show ?thesis using margin_40 by blast
  next
    case False
    with that have "41 \<le> k" by simp
    then show ?thesis using that(2) by (rule c41)
  qed
  have c39: "?Q k" if "39 \<le> k" "k \<le> 62" for k
  proof (cases "k = 39")
    case True
    then show ?thesis using margin_39 by blast
  next
    case False
    with that have "40 \<le> k" by simp
    then show ?thesis using that(2) by (rule c40)
  qed
  have c38: "?Q k" if "38 \<le> k" "k \<le> 62" for k
  proof (cases "k = 38")
    case True
    then show ?thesis using margin_38 by blast
  next
    case False
    with that have "39 \<le> k" by simp
    then show ?thesis using that(2) by (rule c39)
  qed
  have c37: "?Q k" if "37 \<le> k" "k \<le> 62" for k
  proof (cases "k = 37")
    case True
    then show ?thesis using margin_37 by blast
  next
    case False
    with that have "38 \<le> k" by simp
    then show ?thesis using that(2) by (rule c38)
  qed
  have c36: "?Q k" if "36 \<le> k" "k \<le> 62" for k
  proof (cases "k = 36")
    case True
    then show ?thesis using margin_36 by blast
  next
    case False
    with that have "37 \<le> k" by simp
    then show ?thesis using that(2) by (rule c37)
  qed
  have c35: "?Q k" if "35 \<le> k" "k \<le> 62" for k
  proof (cases "k = 35")
    case True
    then show ?thesis using margin_35 by blast
  next
    case False
    with that have "36 \<le> k" by simp
    then show ?thesis using that(2) by (rule c36)
  qed
  have c34: "?Q k" if "34 \<le> k" "k \<le> 62" for k
  proof (cases "k = 34")
    case True
    then show ?thesis using margin_34 by blast
  next
    case False
    with that have "35 \<le> k" by simp
    then show ?thesis using that(2) by (rule c35)
  qed
  have c33: "?Q k" if "33 \<le> k" "k \<le> 62" for k
  proof (cases "k = 33")
    case True
    then show ?thesis using margin_33 by blast
  next
    case False
    with that have "34 \<le> k" by simp
    then show ?thesis using that(2) by (rule c34)
  qed
  have c32: "?Q k" if "32 \<le> k" "k \<le> 62" for k
  proof (cases "k = 32")
    case True
    then show ?thesis using margin_32 by blast
  next
    case False
    with that have "33 \<le> k" by simp
    then show ?thesis using that(2) by (rule c33)
  qed
  have c31: "?Q k" if "31 \<le> k" "k \<le> 62" for k
  proof (cases "k = 31")
    case True
    then show ?thesis using margin_31 by blast
  next
    case False
    with that have "32 \<le> k" by simp
    then show ?thesis using that(2) by (rule c32)
  qed
  have c30: "?Q k" if "30 \<le> k" "k \<le> 62" for k
  proof (cases "k = 30")
    case True
    then show ?thesis using margin_30 by blast
  next
    case False
    with that have "31 \<le> k" by simp
    then show ?thesis using that(2) by (rule c31)
  qed
  have c29: "?Q k" if "29 \<le> k" "k \<le> 62" for k
  proof (cases "k = 29")
    case True
    then show ?thesis using margin_29 by blast
  next
    case False
    with that have "30 \<le> k" by simp
    then show ?thesis using that(2) by (rule c30)
  qed
  have c28: "?Q k" if "28 \<le> k" "k \<le> 62" for k
  proof (cases "k = 28")
    case True
    then show ?thesis using margin_28 by blast
  next
    case False
    with that have "29 \<le> k" by simp
    then show ?thesis using that(2) by (rule c29)
  qed
  have c27: "?Q k" if "27 \<le> k" "k \<le> 62" for k
  proof (cases "k = 27")
    case True
    then show ?thesis using margin_27 by blast
  next
    case False
    with that have "28 \<le> k" by simp
    then show ?thesis using that(2) by (rule c28)
  qed
  have c26: "?Q k" if "26 \<le> k" "k \<le> 62" for k
  proof (cases "k = 26")
    case True
    then show ?thesis using margin_26 by blast
  next
    case False
    with that have "27 \<le> k" by simp
    then show ?thesis using that(2) by (rule c27)
  qed
  have c25: "?Q k" if "25 \<le> k" "k \<le> 62" for k
  proof (cases "k = 25")
    case True
    then show ?thesis using margin_25 by blast
  next
    case False
    with that have "26 \<le> k" by simp
    then show ?thesis using that(2) by (rule c26)
  qed
  have c24: "?Q k" if "24 \<le> k" "k \<le> 62" for k
  proof (cases "k = 24")
    case True
    then show ?thesis using margin_24 by blast
  next
    case False
    with that have "25 \<le> k" by simp
    then show ?thesis using that(2) by (rule c25)
  qed
  have c23: "?Q k" if "23 \<le> k" "k \<le> 62" for k
  proof (cases "k = 23")
    case True
    then show ?thesis using margin_23 by blast
  next
    case False
    with that have "24 \<le> k" by simp
    then show ?thesis using that(2) by (rule c24)
  qed
  have c22: "?Q k" if "22 \<le> k" "k \<le> 62" for k
  proof (cases "k = 22")
    case True
    then show ?thesis using margin_22 by blast
  next
    case False
    with that have "23 \<le> k" by simp
    then show ?thesis using that(2) by (rule c23)
  qed
  have c21: "?Q k" if "21 \<le> k" "k \<le> 62" for k
  proof (cases "k = 21")
    case True
    then show ?thesis using margin_21 by blast
  next
    case False
    with that have "22 \<le> k" by simp
    then show ?thesis using that(2) by (rule c22)
  qed
  have c20: "?Q k" if "20 \<le> k" "k \<le> 62" for k
  proof (cases "k = 20")
    case True
    then show ?thesis using margin_20 by blast
  next
    case False
    with that have "21 \<le> k" by simp
    then show ?thesis using that(2) by (rule c21)
  qed
  have c19: "?Q k" if "19 \<le> k" "k \<le> 62" for k
  proof (cases "k = 19")
    case True
    then show ?thesis using margin_19 by blast
  next
    case False
    with that have "20 \<le> k" by simp
    then show ?thesis using that(2) by (rule c20)
  qed
  have c18: "?Q k" if "18 \<le> k" "k \<le> 62" for k
  proof (cases "k = 18")
    case True
    then show ?thesis using margin_18 by blast
  next
    case False
    with that have "19 \<le> k" by simp
    then show ?thesis using that(2) by (rule c19)
  qed
  have c17: "?Q k" if "17 \<le> k" "k \<le> 62" for k
  proof (cases "k = 17")
    case True
    then show ?thesis using margin_17 by blast
  next
    case False
    with that have "18 \<le> k" by simp
    then show ?thesis using that(2) by (rule c18)
  qed
  have c16: "?Q k" if "16 \<le> k" "k \<le> 62" for k
  proof (cases "k = 16")
    case True
    then show ?thesis using margin_16 by blast
  next
    case False
    with that have "17 \<le> k" by simp
    then show ?thesis using that(2) by (rule c17)
  qed
  have c15: "?Q k" if "15 \<le> k" "k \<le> 62" for k
  proof (cases "k = 15")
    case True
    then show ?thesis using margin_15 by blast
  next
    case False
    with that have "16 \<le> k" by simp
    then show ?thesis using that(2) by (rule c16)
  qed
  have c14: "?Q k" if "14 \<le> k" "k \<le> 62" for k
  proof (cases "k = 14")
    case True
    then show ?thesis using margin_14 by blast
  next
    case False
    with that have "15 \<le> k" by simp
    then show ?thesis using that(2) by (rule c15)
  qed
  have c13: "?Q k" if "13 \<le> k" "k \<le> 62" for k
  proof (cases "k = 13")
    case True
    then show ?thesis using margin_13 by blast
  next
    case False
    with that have "14 \<le> k" by simp
    then show ?thesis using that(2) by (rule c14)
  qed
  have c12: "?Q k" if "12 \<le> k" "k \<le> 62" for k
  proof (cases "k = 12")
    case True
    then show ?thesis using margin_12 by blast
  next
    case False
    with that have "13 \<le> k" by simp
    then show ?thesis using that(2) by (rule c13)
  qed
  have c11: "?Q k" if "11 \<le> k" "k \<le> 62" for k
  proof (cases "k = 11")
    case True
    then show ?thesis using margin_11 by blast
  next
    case False
    with that have "12 \<le> k" by simp
    then show ?thesis using that(2) by (rule c12)
  qed
  have c10: "?Q k" if "10 \<le> k" "k \<le> 62" for k
  proof (cases "k = 10")
    case True
    then show ?thesis using margin_10 by blast
  next
    case False
    with that have "11 \<le> k" by simp
    then show ?thesis using that(2) by (rule c11)
  qed
  have c9: "?Q k" if "9 \<le> k" "k \<le> 62" for k
  proof (cases "k = 9")
    case True
    then show ?thesis using margin_9 by blast
  next
    case False
    with that have "10 \<le> k" by simp
    then show ?thesis using that(2) by (rule c10)
  qed
  have c8: "?Q k" if "8 \<le> k" "k \<le> 62" for k
  proof (cases "k = 8")
    case True
    then show ?thesis using margin_8 by blast
  next
    case False
    with that have "9 \<le> k" by simp
    then show ?thesis using that(2) by (rule c9)
  qed
  have c7: "?Q k" if "7 \<le> k" "k \<le> 62" for k
  proof (cases "k = 7")
    case True
    then show ?thesis using margin_7 by blast
  next
    case False
    with that have "8 \<le> k" by simp
    then show ?thesis using that(2) by (rule c8)
  qed
  have c6: "?Q k" if "6 \<le> k" "k \<le> 62" for k
  proof (cases "k = 6")
    case True
    then show ?thesis using margin_6 by blast
  next
    case False
    with that have "7 \<le> k" by simp
    then show ?thesis using that(2) by (rule c7)
  qed
  have c5: "?Q k" if "5 \<le> k" "k \<le> 62" for k
  proof (cases "k = 5")
    case True
    then show ?thesis using margin_5 by blast
  next
    case False
    with that have "6 \<le> k" by simp
    then show ?thesis using that(2) by (rule c6)
  qed
  have c4: "?Q k" if "4 \<le> k" "k \<le> 62" for k
  proof (cases "k = 4")
    case True
    then show ?thesis using margin_4 by blast
  next
    case False
    with that have "5 \<le> k" by simp
    then show ?thesis using that(2) by (rule c5)
  qed
  have c3: "?Q k" if "3 \<le> k" "k \<le> 62" for k
  proof (cases "k = 3")
    case True
    then show ?thesis using margin_3 by blast
  next
    case False
    with that have "4 \<le> k" by simp
    then show ?thesis using that(2) by (rule c4)
  qed
  have c2: "?Q k" if "2 \<le> k" "k \<le> 62" for k
  proof (cases "k = 2")
    case True
    then show ?thesis using margin_2 by blast
  next
    case False
    with that have "3 \<le> k" by simp
    then show ?thesis using that(2) by (rule c3)
  qed
  show ?thesis using assms by (rule c2)
qed

subsection \<open>Propagation of relative errors\<close>

text \<open>
  How a relative error \<open>r\<close> of an operand, \<open>\<bar>x - y\<bar> \<le> r * y\<close>, passes through rounding, the
  square root, the inverse, the product and the arc sine.
\<close>

lemma rel_weaken:
  fixes x y r r' :: real
  assumes "\<bar>x - y\<bar> \<le> r * y" "r \<le> r'" "0 \<le> y"
  shows "\<bar>x - y\<bar> \<le> r' * y"
proof -
  have "r * y \<le> r' * y" using assms(2,3) by (rule mult_right_mono)
  with assms(1) show ?thesis by linarith
qed

lemma rnd_rel:
  assumes acc: "accurate D"
    and x: "\<bar>x - y\<bar> \<le> r * y" and r: "0 \<le> r" "r \<le> 1"
    and y: "1 / 2 ^ 40 \<le> y" "y \<le> 2 ^ 99"
  shows "\<bar>rnd D x - y\<bar> \<le> (r + 3 * eps) * y"
proof -
  have ypos: "0 < y" using y(1) by (rule less_le_trans [rotated]) simp
  have "r * y \<le> 1 * y" using r(2) ypos by (intro mult_right_mono) auto
  with x have x2: "\<bar>x\<bar> \<le> 2 * y" by linarith
  with y(2) have "\<bar>x\<bar> \<le> 2 ^ 100" by simp
  with acc have c: "\<bar>rnd D x - x\<bar> \<le> eps * \<bar>x\<bar> + eta" by (simp add: accurate_def)
  have "eps * \<bar>x\<bar> \<le> eps * (2 * y)" using x2 eps_small(1) by (rule mult_left_mono)
  moreover have "eta \<le> eps * y"
  proof -
    have "eta \<le> eps * (1 / 2 ^ 40)" by (simp add: eps_def eta_def)
    also have "\<dots> \<le> eps * y" using y(1) eps_small(1) by (rule mult_left_mono)
    finally show ?thesis .
  qed
  ultimately have "\<bar>rnd D x - x\<bar> \<le> 3 * eps * y" using c by linarith
  moreover have "(r + 3 * eps) * y = r * y + 3 * eps * y" by (simp add: algebra_simps)
  ultimately show ?thesis using x by linarith
qed

lemma sqrt_rel:
  fixes x y r :: real
  assumes x: "\<bar>x - y\<bar> \<le> r * y" and r: "0 \<le> r" "r \<le> 1" and y: "0 < y"
  shows "\<bar>sqrt x - sqrt y\<bar> \<le> r * sqrt y"
proof -
  have lo: "y * (1 - r) \<le> x" and hi: "x \<le> y * (1 + r)"
    using x by (simp_all add: algebra_simps abs_le_iff)
  have "sqrt x \<le> sqrt (y * (1 + r))" using hi by simp
  also have "\<dots> = sqrt y * sqrt (1 + r)" by (rule real_sqrt_mult)
  also have "\<dots> \<le> sqrt y * (1 + r)"
  proof (rule mult_left_mono)
    show "sqrt (1 + r) \<le> 1 + r"
      by (rule real_le_lsqrt) (use r in \<open>auto simp: power2_eq_square algebra_simps\<close>)
    show "0 \<le> sqrt y" using y by simp
  qed
  finally have u: "sqrt x \<le> sqrt y * (1 + r)" .
  have "sqrt y * (1 - r) \<le> sqrt y * sqrt (1 - r)"
  proof (rule mult_left_mono)
    have "(1 - r)\<^sup>2 \<le> 1 - r"
      using r mult_left_le [of "1 - r" "1 - r"] by (simp add: power2_eq_square)
    then show "1 - r \<le> sqrt (1 - r)" by (rule real_le_rsqrt)
    show "0 \<le> sqrt y" using y by simp
  qed
  also have "\<dots> = sqrt (y * (1 - r))" by (rule real_sqrt_mult [symmetric])
  also have "\<dots> \<le> sqrt x" using lo by simp
  finally have l: "sqrt y * (1 - r) \<le> sqrt x" .
  from l u show ?thesis by (simp add: algebra_simps abs_le_iff)
qed

lemma inv_rel:
  fixes x y r :: real
  assumes x: "\<bar>x - y\<bar> \<le> r * y" and r: "0 \<le> r" "r \<le> 1 / 2" and y: "0 < y"
  shows "\<bar>1 / x - 1 / y\<bar> \<le> 2 * r * (1 / y)"
proof -
  have "r * y \<le> (1 / 2) * y" using r(2) y by (intro mult_right_mono) auto
  with x have xl: "y / 2 \<le> x" by (simp add: abs_le_iff)
  with y have xpos: "0 < x" by linarith
  have "1 / x - 1 / y = (y - x) / (x * y)"
    using xpos y by (simp add: field_simps)
  then have "\<bar>1 / x - 1 / y\<bar> = \<bar>x - y\<bar> / (x * y)"
    using xpos y by (simp add: abs_mult abs_minus_commute)
  also have "\<dots> \<le> (r * y) / (x * y)"
    using x xpos y by (intro divide_right_mono) auto
  also have "\<dots> = r / x" using y by simp
  also have "\<dots> \<le> r / (y / 2)"
    using xl y r(1) by (intro divide_left_mono) auto
  also have "\<dots> = 2 * r * (1 / y)" by simp
  finally show ?thesis .
qed

lemma prod_rel:
  fixes x X z Z r1 r2 :: real
  assumes x: "\<bar>x - X\<bar> \<le> r1 * X" and z: "\<bar>z - Z\<bar> \<le> r2 * Z"
    and pos: "0 \<le> X" "0 \<le> Z" "0 \<le> r1" "0 \<le> r2"
  shows "\<bar>x * z - X * Z\<bar> \<le> (r1 + r2 + r1 * r2) * (X * Z)"
proof -
  have "(1 + r2) * Z = Z + r2 * Z" by (simp add: algebra_simps)
  then have zb: "\<bar>z\<bar> \<le> (1 + r2) * Z" using z pos(2) by linarith
  have "x * z - X * Z = (x - X) * z + X * (z - Z)" by (simp add: algebra_simps)
  then have "\<bar>x * z - X * Z\<bar> \<le> \<bar>x - X\<bar> * \<bar>z\<bar> + X * \<bar>z - Z\<bar>"
    using pos(1) by (simp add: abs_mult) (metis abs_mult abs_of_nonneg abs_triangle_ineq)
  also have "\<dots> \<le> (r1 * X) * ((1 + r2) * Z) + X * (r2 * Z)"
    using x z zb pos by (intro add_mono mult_mono mult_left_mono) auto
  also have "\<dots> = (r1 + r2 + r1 * r2) * (X * Z)" by (simp add: algebra_simps)
  finally show ?thesis .
qed

text \<open>On \<open>[0, 4/5]\<close> the arc sine has a slope of at most 2.\<close>

lemma arcsin_lipschitz:
  fixes a b :: real
  assumes "0 \<le> a" "a \<le> b" "b \<le> 4 / 5"
  shows "arcsin b - arcsin a \<le> 2 * (b - a)" and "0 \<le> arcsin b - arcsin a"
proof -
  have "(\<lambda>t. 2 * t - arcsin t) a \<le> (\<lambda>t. 2 * t - arcsin t) b"
  proof (rule DERIV_nonneg_imp_nondecreasing [OF assms(2)])
    fix t :: real assume t: "a \<le> t" "t \<le> b"
    then have t1: "- 1 < t" "t < 1" using assms by auto
    have t2: "t\<^sup>2 \<le> (4 / 5)\<^sup>2" using t assms by (intro power_mono) auto
    have "((\<lambda>t. 2 * t - arcsin t) has_real_derivative (2 - inverse (sqrt (1 - t\<^sup>2)))) (at t)"
      by (auto intro!: derivative_eq_intros DERIV_arcsin t1)
    moreover have "inverse (sqrt (1 - t\<^sup>2)) \<le> 2"
    proof -
      have "(1 / 2)\<^sup>2 \<le> 1 - t\<^sup>2" using t2 by (simp add: power2_eq_square)
      then have "1 / 2 \<le> sqrt (1 - t\<^sup>2)" by (rule real_le_rsqrt)
      then have "inverse (sqrt (1 - t\<^sup>2)) \<le> inverse (1 / 2)"
        by (rule le_imp_inverse_le) simp
      then show ?thesis by simp
    qed
    ultimately show "\<exists>y. ((\<lambda>t. 2 * t - arcsin t) has_real_derivative y) (at t) \<and> 0 \<le> y"
      by (intro exI [of _ "2 - inverse (sqrt (1 - t\<^sup>2))"]) simp
  qed
  then show "arcsin b - arcsin a \<le> 2 * (b - a)" by simp
  show "0 \<le> arcsin b - arcsin a"
    using arcsin_le_arcsin [of a b] assms by simp
qed

lemma arcsin_rel:
  fixes x y r :: real
  assumes x: "\<bar>x - y\<bar> \<le> r * y" and r: "0 \<le> r" "r \<le> 1 / 20" and y: "0 < y" "y \<le> 3 / 4"
  shows "\<bar>arcsin x - arcsin y\<bar> \<le> 2 * r * arcsin y"
proof -
  have ry: "r * y \<le> (1 / 20) * y" using r(2) y(1) by (intro mult_right_mono) auto
  have x0: "0 \<le> x" using x ry y by linarith
  have x1: "x \<le> 4 / 5" using x ry y by linarith
  have ya: "y \<le> arcsin y" using arcsin_ge_self [of y] y by simp
  have "\<bar>arcsin x - arcsin y\<bar> \<le> 2 * \<bar>x - y\<bar>"
  proof (cases "x \<le> y")
    case True
    with arcsin_lipschitz [of x y] x0 y show ?thesis by simp
  next
    case False
    with arcsin_lipschitz [of y x] x1 y show ?thesis by simp
  qed
  also have "\<dots> \<le> 2 * (r * y)" using x by simp
  also have "\<dots> \<le> 2 * (r * arcsin y)" using ya r(1) by (simp add: mult_left_mono)
  finally show ?thesis by simp
qed

lemma ArcSin_rel:
  assumes acc: "accurate D"
    and x: "\<bar>arcsin x - a\<bar> \<le> r * a" and r: "0 \<le> r" "r \<le> 1"
    and a: "1 / 2 ^ 40 \<le> a" and x1: "\<bar>x\<bar> \<le> 1"
  shows "\<bar>ArcSin D x - a\<bar> \<le> (r + 3 * eps) * a"
proof -
  have apos: "0 < a" using a by (rule less_le_trans [rotated]) simp
  have "r * a \<le> 1 * a" using r(2) apos by (intro mult_right_mono) auto
  with x have x2: "\<bar>arcsin x\<bar> \<le> 2 * a" by linarith
  from acc x1 have c: "\<bar>ArcSin D x - arcsin x\<bar> \<le> eps * \<bar>arcsin x\<bar> + eta"
    by (simp add: accurate_def)
  have "eps * \<bar>arcsin x\<bar> \<le> eps * (2 * a)" using x2 eps_small(1) by (rule mult_left_mono)
  moreover have "eta \<le> eps * a"
  proof -
    have "eta \<le> eps * (1 / 2 ^ 40)" by (simp add: eps_def eta_def)
    also have "\<dots> \<le> eps * a" using a eps_small(1) by (rule mult_left_mono)
    finally show ?thesis .
  qed
  ultimately have "\<bar>ArcSin D x - arcsin x\<bar> \<le> 3 * eps * a" using c by linarith
  moreover have "(r + 3 * eps) * a = r * a + 3 * eps * a" by (simp add: algebra_simps)
  ultimately show ?thesis using x by linarith
qed

text \<open>
  The computed iteration count is within one half plus a thousandth of the real value of
  the closed form.
\<close>

lemma eps_bounds: "0 \<le> eps" "80 * eps \<le> 1 / 20" "eps * 2 ^ 31 = 1 / 2 ^ 19"
  by (simp_all add: eps_def)

lemma NIterations_near:
  assumes acc: "accurate D" and n: "1 \<le> n" "n \<le> 62"
  shows "\<exists>k. NIterations D n = Some k \<and>
    \<bar>real_of_int k - (0.25 * pi / arcsin (1 / sqrt (2 ^ nat n)) - 0.5)\<bar> \<le> 1 / 2 + 1 / 1000"
proof -
  define N :: real where "N = 2 ^ nat n"
  define x0 where "x0 = 1 / sqrt N"
  define a0 where "a0 = arcsin x0"
  define q where "q = 0.25 * pi * (1 / a0)"
  define a1 where "a1 = rnd D N"
  define a2 where "a2 = rnd D (sqrt a1)"
  define a3 where "a3 = rnd D (1 / a2)"
  define angle where "angle = ArcSin D a3"
  define b1 where "b1 = rnd D (0.25 * rnd D pi)"
  define b2 where "b2 = rnd D (b1 / angle)"
  define b3 where "b3 = rnd D (b2 - 0.5)"
  note e = eps_bounds
  have "(2::real) ^ 1 \<le> 2 ^ nat n" using n by (intro power_increasing) auto
  then have N1: "2 \<le> N" by (simp add: N_def)
  have "(2::real) ^ nat n \<le> 2 ^ 62" using n by (intro power_increasing) auto
  then have N2: "N \<le> 2 ^ 62" by (simp add: N_def)
  have s1: "4 / 3 \<le> sqrt N"
    by (rule real_le_rsqrt) (use N1 in \<open>simp add: power2_eq_square\<close>)
  have s2: "sqrt N \<le> 2 ^ 31"
    by (rule real_le_lsqrt) (use N1 N2 in auto)
  have spos: "0 < sqrt N" using s1 by linarith
  have x0u: "x0 \<le> 3 / 4"
    unfolding x0_def using s1 spos by (simp add: field_simps)
  have x0l: "1 / 2 ^ 31 \<le> x0"
    unfolding x0_def using s2 spos by (intro divide_left_mono) auto
  have x0pos: "0 < x0" unfolding x0_def using spos by simp
  have a0l: "x0 \<le> a0" unfolding a0_def using arcsin_ge_self [of x0] x0u x0pos by simp
  have a0u: "a0 \<le> pi / 2" unfolding a0_def using arcsin_ubound [of x0] x0u x0pos by simp
  have a0pos: "0 < a0" using a0l x0pos by linarith
  have qlo: "1 / 2 \<le> q"
  proof -
    have "0.25 * pi * (1 / (pi / 2)) \<le> 0.25 * pi * (1 / a0)"
      using a0u a0pos by (intro mult_left_mono divide_left_mono) auto
    then show ?thesis by (simp add: q_def)
  qed
  have qhi: "q \<le> 2 ^ 31"
  proof -
    have "1 / a0 \<le> 1 / x0" using a0l x0pos by (intro divide_left_mono) auto
    also have "\<dots> = sqrt N" by (simp add: x0_def)
    finally have "1 / a0 \<le> 2 ^ 31" using s2 by linarith
    moreover have "0.25 * pi \<le> 1" using pi_less_4 by simp
    moreover have "0 \<le> 1 / a0" using a0pos by simp
    ultimately have "0.25 * pi * (1 / a0) \<le> 1 * 2 ^ 31"
      using pi_ge_3 by (intro mult_mono) auto
    then show ?thesis by (simp add: q_def)
  qed
  have e1: "\<bar>a1 - N\<bar> \<le> (3 * eps) * N"
    unfolding a1_def using rnd_rel [OF acc, of N N 0] N1 N2 by simp
  have e2: "\<bar>sqrt a1 - sqrt N\<bar> \<le> (3 * eps) * sqrt N"
    by (rule sqrt_rel [OF e1]) (use e N1 in auto)
  have e3: "\<bar>a2 - sqrt N\<bar> \<le> (6 * eps) * sqrt N"
    unfolding a2_def using rnd_rel [OF acc e2] e s1 s2 by simp
  have e4: "\<bar>1 / a2 - x0\<bar> \<le> (12 * eps) * x0"
    unfolding x0_def using inv_rel [OF e3] e spos by simp
  have e5: "\<bar>a3 - x0\<bar> \<le> (15 * eps) * x0"
    unfolding a3_def using rnd_rel [OF acc e4] e x0l x0u by simp
  have e6: "\<bar>arcsin a3 - a0\<bar> \<le> (30 * eps) * a0"
    unfolding a0_def using arcsin_rel [OF e5] e x0pos x0u by simp
  have "15 * eps * x0 \<le> (1 / 20) * x0" using e x0pos by (intro mult_right_mono) auto
  with e5 x0u x0pos have a3b: "\<bar>a3\<bar> \<le> 1" by linarith
  have a0l': "1 / 2 ^ 40 \<le> a0"
  proof -
    have "(1::real) / 2 ^ 40 \<le> 1 / 2 ^ 31" by simp
    with x0l a0l show ?thesis by linarith
  qed
  have e7: "\<bar>angle - a0\<bar> \<le> (33 * eps) * a0"
    unfolding angle_def using ArcSin_rel [OF acc e6 _ _ a0l' a3b] e by simp
  have e8: "\<bar>1 / angle - 1 / a0\<bar> \<le> (66 * eps) * (1 / a0)"
    using inv_rel [OF e7] e a0pos by simp
  have p1: "\<bar>rnd D pi - pi\<bar> \<le> (3 * eps) * pi"
    using rnd_rel [OF acc, of pi pi 0] pi_ge_3 pi_less_4 by simp
  then have p2: "\<bar>0.25 * rnd D pi - 0.25 * pi\<bar> \<le> (3 * eps) * (0.25 * pi)"
    unfolding abs_le_iff by simp
  have e9: "\<bar>b1 - 0.25 * pi\<bar> \<le> (6 * eps) * (0.25 * pi)"
    unfolding b1_def using rnd_rel [OF acc p2] e pi_ge_3 pi_less_4 by simp
  have "\<bar>b1 * (1 / angle) - 0.25 * pi * (1 / a0)\<bar>
          \<le> (6 * eps + 66 * eps + (6 * eps) * (66 * eps)) * (0.25 * pi * (1 / a0))"
    by (rule prod_rel [OF e9 e8]) (use e a0pos pi_ge_3 in auto)
  moreover have "6 * eps + 66 * eps + (6 * eps) * (66 * eps) \<le> 73 * eps"
    by (simp add: eps_def)
  ultimately have e10: "\<bar>b1 / angle - q\<bar> \<le> (73 * eps) * q"
    unfolding q_def using rel_weaken [of "b1 * (1 / angle)" "0.25 * pi * (1 / a0)"] a0pos pi_ge_3
    by simp
  have e11: "\<bar>b2 - q\<bar> \<le> (76 * eps) * q"
    unfolding b2_def using rnd_rel [OF acc e10] e qlo qhi by simp
  have qpos: "0 < q" using qlo by linarith
  have "76 * eps * q \<le> 1 * q" using e qpos by (intro mult_right_mono) auto
  with e11 qlo have b2b: "\<bar>b2 - 0.5\<bar> \<le> 3 * q" by linarith
  then have "\<bar>b2 - 0.5\<bar> \<le> 2 ^ 100" using qhi by simp
  with acc have c: "\<bar>b3 - (b2 - 0.5)\<bar> \<le> eps * \<bar>b2 - 0.5\<bar> + eta"
    by (simp add: accurate_def b3_def)
  have "eps * \<bar>b2 - 0.5\<bar> \<le> eps * (3 * q)" using b2b e(1) by (rule mult_left_mono)
  moreover have "eta \<le> eps * q"
  proof -
    have "eta \<le> eps * (1 / 2)" by (simp add: eps_def eta_def)
    also have "\<dots> \<le> eps * q" using qlo e(1) by (rule mult_left_mono)
    finally show ?thesis .
  qed
  ultimately have "\<bar>b3 - (b2 - 0.5)\<bar> \<le> 4 * eps * q" using c by linarith
  with e11 have "\<bar>b3 - (q - 0.5)\<bar> \<le> 80 * (eps * q)" by linarith
  moreover have "eps * q \<le> eps * 2 ^ 31" using qhi e(1) by (rule mult_left_mono)
  moreover have "80 * (1 / 2 ^ 19) \<le> (1 / 1000 :: real)" by simp
  ultimately have e12: "\<bar>b3 - (q - 0.5)\<bar> \<le> 1 / 1000" using e(3) by linarith
  have "(2::real) ^ 31 + 1 \<le> 2 ^ 62" by simp
  with e12 qhi qpos have "\<bar>b3\<bar> \<le> 2 ^ 62" by linarith
  from Round_close [OF acc this] e12
  have "\<bar>real_of_int (Round D b3) - (q - 0.5)\<bar> \<le> 1 / 2 + 1 / 1000" by linarith
  moreover have "NIterations D n = Some (Round D b3)"
    using NIterations_unfold [of n D] n
    by (simp add: b3_def b2_def b1_def angle_def a3_def a2_def a1_def N_def)
  ultimately show ?thesis
    by (simp add: q_def a0_def x0_def N_def)
qed

subsection \<open>The iteration count and the closed form\<close>

lemma accurate_exact_down: "accurate exact_down"
proof -
  have "\<bar>real_of_int (- round (- x)) - x\<bar> \<le> 1 / 2" for x :: real
  proof -
    have "real_of_int (- round (- x)) = - real_of_int (round (- x))" by simp
    with of_int_round_abs_le [of "- x"] show ?thesis by linarith
  qed
  then show ?thesis
    unfolding accurate_def exact_down_def by (simp add: eps_def eta_def)
qed

lemma IterationPlan_eq:
  assumes "\<bar>0.25 * pi / arcsin (1 / sqrt (2 ^ N)) - 0.5 - real_of_int m\<bar> \<le> 498 / 1000"
  shows "IterationPlan N = m"
proof -
  define v where "v = 0.25 * pi / arcsin (1 / sqrt (2 ^ N)) - 0.5"
  have "\<bar>v - real_of_int m\<bar> \<le> 498 / 1000" using assms by (simp only: v_def)
  then have "v - 1 / 2 < real_of_int m" "real_of_int m \<le> v + 1 / 2" by linarith+
  then have "round v = m" by (rule round_unique)
  then show ?thesis by (simp only: IterationPlan_def v_def)
qed

lemma NIterations_round:
  assumes acc: "accurate D" and n: "2 \<le> n" "n \<le> 62"
  shows "NIterations D n = Some (IterationPlan (nat n))"
proof -
  define v where "v = 0.25 * pi / arcsin (1 / sqrt (2 ^ nat n)) - 0.5"
  obtain k where k: "NIterations D n = Some k" "\<bar>real_of_int k - v\<bar> \<le> 1 / 2 + 1 / 1000"
    using NIterations_near [OF acc, of n] n unfolding v_def by auto
  have "2 \<le> nat n" "nat n \<le> 62" using n by simp_all
  then obtain m :: int where m: "\<bar>v - real_of_int m\<bar> \<le> 498 / 1000"
    using closed_form_margin [of "nat n"] unfolding v_def by blast
  have "\<bar>real_of_int k - real_of_int m\<bar> < 1" using k(2) m by linarith
  then have "k = m" by linarith
  moreover have "IterationPlan (nat n) = m"
    by (rule IterationPlan_eq) (use m in \<open>simp add: v_def\<close>)
  ultimately show ?thesis using k(1) by simp
qed

lemma arcsin_sqrt_half: "arcsin (1 / sqrt 2) = pi / 4"
proof -
  have "sin (pi / 4) = 1 / sqrt 2"
    by (simp add: sin_45 real_div_sqrt)
  then have "arcsin (1 / sqrt 2) = arcsin (sin (pi / 4))" by simp
  also have "\<dots> = pi / 4" by (rule arcsin_sin) (use pi_ge_3 in auto)
  finally show ?thesis .
qed

lemma closed_form_1: "0.25 * pi / arcsin (1 / sqrt (2 ^ 1)) - 0.5 = (1 / 2 :: real)"
  by (simp add: arcsin_sqrt_half)

lemma IterationPlan_1: "IterationPlan 1 = 1"
  by (simp only: IterationPlan_def closed_form_1) (simp add: round_def)

lemma IterationPlan_3: "IterationPlan 3 = 2"
  by (rule IterationPlan_eq) (rule margin_3)

lemma NIterations_1:
  assumes acc: "accurate D"
  shows "NIterations D 1 = Some 0 \<or> NIterations D 1 = Some 1"
proof -
  obtain k where k: "NIterations D 1 = Some k"
      "\<bar>real_of_int k - (0.25 * pi / arcsin (1 / sqrt (2 ^ nat 1)) - 0.5)\<bar> \<le> 1 / 2 + 1 / 1000"
    using NIterations_near [OF acc, of 1] by auto
  have v1: "0.25 * pi / arcsin (1 / sqrt (2 ^ nat 1)) - 0.5 = (1 / 2 :: real)"
    by (simp add: arcsin_sqrt_half)
  have "\<bar>real_of_int k - 1 / 2\<bar> \<le> 1 / 2 + 1 / 1000"
    using k(2) unfolding v1 .
  then have "- 1 < real_of_int k" "real_of_int k < 2" by linarith+
  then have "k = 0 \<or> k = 1" by linarith
  then show ?thesis using k(1) by auto
qed

lemma NIterations_exact_down_1: "NIterations exact_down 1 = Some 0"
  using NIterations_unfold [of 1 exact_down]
  by (simp add: exact_down_def arcsin_sqrt_half round_def)

subsection \<open>Claims about the iteration count\<close>

text \<open>
  C2 (as amended). For \<open>2 \<le> n \<le> 62\<close>, where \<open>1 <<< n\<close> is \<open>2 ^ n\<close>, and every accurate
  Double arithmetic, \<open>NIterations n\<close> returns exactly the closed form
  \<open>round(0.25 \<pi> / arcsin(1 / \<surd>(2^n)) - 0.5)\<close> of the specification, evaluated over the real
  numbers; in particular \<open>NIterations 3\<close> is 2, as is the closed form. For \<open>n = 1\<close> the
  real value is exactly the tie \<open>1/2\<close>, and \<open>NIterations 1\<close> is 0 or 1, depending on how the
  Double computation rounds.
\<close>

theorem NIterations_closed_form:
  "(accurate D \<and> 2 \<le> n \<and> n \<le> 62 \<longrightarrow> NIterations D n = Some (IterationPlan (nat n))) \<and>
   (accurate D \<longrightarrow> NIterations D 3 = Some 2) \<and> IterationPlan 3 = 2 \<and>
   (accurate D \<longrightarrow> NIterations D 1 = Some 0 \<or> NIterations D 1 = Some 1)"
  using NIterations_round [of D n] NIterations_3 [of D] IterationPlan_3 NIterations_1 [of D]
  by blast

theorem NIterations_closed_form_witness:
  "accurate exact \<and> NIterations exact 5 = Some (IterationPlan (nat 5)) \<and>
   NIterations exact 3 = Some 2 \<and> IterationPlan 3 = 2 \<and>
   (NIterations exact 1 = Some 0 \<or> NIterations exact 1 = Some 1)"
proof -
  have "(2::int) \<le> 5 \<and> (5::int) \<le> 62" by simp
  then show ?thesis
    using NIterations_closed_form [of exact 5] accurate_exact by blast
qed

text \<open>
  C2 as stated fails at \<open>n = 63\<close>: \<open>1 <<< 63\<close> is negative, its square root is NaN, and
  no iteration count comes out, whereas the closed form is defined. It also fails at
  \<open>n = 1\<close> in the accurate arithmetic that rounds ties down, which returns 0 where the
  closed form is 1.
\<close>

theorem NIterations_closed_form_counterexample:
  "NIterations exact 63 \<noteq> Some (IterationPlan 63) \<and>
   accurate exact_down \<and> NIterations exact_down 1 \<noteq> Some (IterationPlan 1)"
proof -
  have "NIterations exact 63 = None" by (simp add: NIterations_def shl_63)
  then show ?thesis
    using accurate_exact_down NIterations_exact_down_1 IterationPlan_1 by simp
qed

text \<open>
  C3 (as amended). For \<open>1 \<le> N \<le> 62\<close> and every accurate Double arithmetic,
  \<open>NIterations N\<close> returns a value, and the value is not negative.
\<close>

theorem NIterations_nonnegative:
  "accurate D \<Longrightarrow> 1 \<le> N \<Longrightarrow> N \<le> 62 \<Longrightarrow> \<exists>k. NIterations D N = Some k \<and> 0 \<le> k"
  by (rule NIterations_nonneg)

theorem NIterations_nonnegative_witness:
  "accurate exact \<and> (1::int) \<le> 5 \<and> (5::int) \<le> 62 \<and> (\<exists>k. NIterations exact 5 = Some k \<and> 0 \<le> k)"
  using NIterations_nonnegative [of exact 5] accurate_exact by simp

text \<open>C3 as stated fails at \<open>N = 63\<close>: no value is returned.\<close>

theorem NIterations_nonnegative_counterexample:
  "\<not> (\<exists>k. NIterations exact 63 = Some k \<and> 0 \<le> k)"
  by (simp add: NIterations_def shl_63)

text \<open>
  C4 (as amended). \<open>NIterations\<close> has no domain check: for \<open>n = 0\<close> the search space has
  one item, the angle is \<open>\<pi> / 2\<close>, and the function returns 0 in every accurate Double
  arithmetic.
\<close>

theorem NIterations_zero_qubits:
  "accurate D \<Longrightarrow> NIterations D 0 = Some 0"
  by (rule NIterations_0)

theorem NIterations_zero_qubits_witness:
  "accurate exact \<and> NIterations exact 0 = Some 0"
  using NIterations_zero_qubits [of exact] accurate_exact by simp

text \<open>C4 as stated fails at \<open>n = 0\<close>: a value is returned, not an error.\<close>

theorem NIterations_domain_counterexample:
  "NIterations exact 0 \<noteq> None"
  using NIterations_0 [OF accurate_exact] by simp

section \<open>Properties of the Grover operations\<close>

lemma is_state_tab [simp]: "is_state n (tab n f)"
  by (induction n arbitrary: f) simp_all

lemma nqubits_state: "is_state n \<psi> \<Longrightarrow> nqubits \<psi> = n"
  by (induction n \<psi> rule: is_state.induct) simp_all

lemma nqubits_tab [simp]: "nqubits (tab n f) = n"
  by (simp add: nqubits_state)

lemma amp_tab [simp]: "length bs = n \<Longrightarrow> amp (tab n f) bs = f bs"
proof (induction n arbitrary: f bs)
  case 0
  then show ?case by simp
next
  case (Suc n)
  then obtain x xs where "bs = x # xs" "length xs = n" by (cases bs) auto
  then show ?case using Suc.IH by simp
qed

lemma tab_amp: "is_state n \<psi> \<Longrightarrow> tab n (amp \<psi>) = \<psi>"
  by (induction n \<psi> rule: is_state.induct) simp_all

lemma tab_cong: "(\<And>bs. length bs = n \<Longrightarrow> f bs = g bs) \<Longrightarrow> tab n f = tab n g"
proof (induction n arbitrary: f g)
  case 0
  then show ?case by simp
next
  case (Suc n)
  have "tab n (\<lambda>bs. f (False # bs)) = tab n (\<lambda>bs. g (False # bs))"
    by (rule Suc.IH) (simp add: Suc.prems)
  moreover have "tab n (\<lambda>bs. f (True # bs)) = tab n (\<lambda>bs. g (True # bs))"
    by (rule Suc.IH) (simp add: Suc.prems)
  ultimately show ?case by simp
qed

lemma tab_eq_state:
  "is_state n \<psi> \<Longrightarrow> (\<And>bs. length bs = n \<Longrightarrow> f bs = amp \<psi> bs) \<Longrightarrow> tab n f = \<psi>"
  using tab_cong [of n f "amp \<psi>"] tab_amp [of n \<psi>] by simp

declare tab.simps [simp del]

lemma H_eq:
  assumes "is_state n \<psi>" "q < n"
  shows "H q \<psi> = tab n (\<lambda>bs. (amp \<psi> (bs[q := False]) +
            (if bs ! q then - 1 else 1) * amp \<psi> (bs[q := True])) / complex_of_real (sqrt 2))"
  using assms nqubits_state [OF assms(1)] by (simp add: H_def)

lemma H_out: "is_state n \<psi> \<Longrightarrow> \<not> q < n \<Longrightarrow> H q \<psi> = \<psi>"
  using nqubits_state [of n \<psi>] by (simp add: H_def)

lemma X_eq:
  assumes "is_state n \<psi>" "q < n"
  shows "X q \<psi> = tab n (\<lambda>bs. amp \<psi> (bs[q := \<not> bs ! q]))"
  using assms nqubits_state [OF assms(1)] by (simp add: X_def)

lemma X_out: "is_state n \<psi> \<Longrightarrow> \<not> q < n \<Longrightarrow> X q \<psi> = \<psi>"
  using nqubits_state [of n \<psi>] by (simp add: X_def)

lemma CZ_eq:
  assumes "is_state n \<psi>" "list_all (\<lambda>q. q < n) (t # cs)"
  shows "Controlled_Z cs t \<psi> = tab n (\<lambda>bs. if list_all (\<lambda>c. bs ! c) cs \<and> bs ! t
                              then - amp \<psi> bs else amp \<psi> bs)"
  using assms nqubits_state [OF assms(1)] by (simp add: Controlled_Z_def)

lemma CZ_out: "is_state n \<psi> \<Longrightarrow> \<not> list_all (\<lambda>q. q < n) (t # cs) \<Longrightarrow> Controlled_Z cs t \<psi> = \<psi>"
  using nqubits_state [of n \<psi>] by (auto simp: Controlled_Z_def)

lemma is_state_H: "is_state n \<psi> \<Longrightarrow> is_state n (H q \<psi>)"
  by (cases "q < n") (simp_all add: H_eq H_out)

lemma is_state_X: "is_state n \<psi> \<Longrightarrow> is_state n (X q \<psi>)"
  by (cases "q < n") (simp_all add: X_eq X_out)

lemma is_state_CZ: "is_state n \<psi> \<Longrightarrow> is_state n (Controlled_Z cs t \<psi>)"
proof (cases "list_all (\<lambda>q. q < n) (t # cs)")
  case True
  assume "is_state n \<psi>"
  from CZ_eq [OF this True] show ?thesis by simp
next
  case False
  assume "is_state n \<psi>"
  from CZ_out [OF this False] this show ?thesis by simp
qed

lemma sqrt2_sq: "complex_of_real (sqrt 2) * complex_of_real (sqrt 2) = 2"
  by (metis of_real_mult of_real_numeral real_sqrt_mult_self abs_numeral)

lemma half_sum:
  fixes a b :: complex
  shows "((a + b) / complex_of_real (sqrt 2) + (a - b) / complex_of_real (sqrt 2)) / complex_of_real (sqrt 2) = a"
    and "((a + b) / complex_of_real (sqrt 2) - (a - b) / complex_of_real (sqrt 2)) / complex_of_real (sqrt 2) = b"
proof -
  have r: "complex_of_real (sqrt 2) \<noteq> 0" by simp
  have "((a + b) / complex_of_real (sqrt 2) + (a - b) / complex_of_real (sqrt 2)) / complex_of_real (sqrt 2)
       = (2 * a) / (complex_of_real (sqrt 2) * complex_of_real (sqrt 2))"
    by (simp add: add_divide_distrib [symmetric] del: of_real_eq_0_iff)
  then show "((a + b) / complex_of_real (sqrt 2) + (a - b) / complex_of_real (sqrt 2)) / complex_of_real (sqrt 2) = a"
    by (simp only: sqrt2_sq) simp
  have "((a + b) / complex_of_real (sqrt 2) - (a - b) / complex_of_real (sqrt 2)) / complex_of_real (sqrt 2)
       = (2 * b) / (complex_of_real (sqrt 2) * complex_of_real (sqrt 2))"
    by (simp add: diff_divide_distrib [symmetric] del: of_real_eq_0_iff)
  then show "((a + b) / complex_of_real (sqrt 2) - (a - b) / complex_of_real (sqrt 2)) / complex_of_real (sqrt 2) = b"
    by (simp only: sqrt2_sq) simp
qed

lemma half_sum_if:
  fixes a b :: complex
  shows "((a + b) / complex_of_real (sqrt 2) +
           (if c then - 1 else 1) * ((a - b) / complex_of_real (sqrt 2))) / complex_of_real (sqrt 2)
         = (if c then b else a)"
proof (cases c)
  case True
  have "(a + b) / complex_of_real (sqrt 2) + (- 1) * ((a - b) / complex_of_real (sqrt 2))
      = (a + b) / complex_of_real (sqrt 2) - (a - b) / complex_of_real (sqrt 2)"
    by (simp only: mult_minus1 add_uminus_conv_diff)
  then show ?thesis using True by (simp only: if_True half_sum)
next
  case False
  have "(a + b) / complex_of_real (sqrt 2) + 1 * ((a - b) / complex_of_real (sqrt 2))
      = (a + b) / complex_of_real (sqrt 2) + (a - b) / complex_of_real (sqrt 2)"
    by (simp only: mult_1)
  then show ?thesis using False by (simp only: if_False half_sum)
qed

lemma amp_H:
  assumes "is_state n \<psi>" "q < n" "length bs = n"
  shows "amp (H q \<psi>) bs = (amp \<psi> (bs[q := False]) +
            (if bs ! q then - 1 else 1) * amp \<psi> (bs[q := True])) / complex_of_real (sqrt 2)"
  using assms by (simp add: H_eq)

lemma amp_X:
  assumes "is_state n \<psi>" "q < n" "length bs = n"
  shows "amp (X q \<psi>) bs = amp \<psi> (bs[q := \<not> bs ! q])"
  using assms by (simp add: X_eq)

lemma amp_CZ:
  assumes "is_state n \<psi>" "list_all (\<lambda>q. q < n) (t # cs)" "length bs = n"
  shows "amp (Controlled_Z cs t \<psi>) bs =
     (if list_all (\<lambda>c. bs ! c) cs \<and> bs ! t then - amp \<psi> bs else amp \<psi> bs)"
  using assms(3) by (simp add: CZ_eq [OF assms(1,2)])

lemma H_H: assumes s: "is_state n \<psi>" shows "H q (H q \<psi>) = \<psi>"
proof (cases "q < n")
  case False
  then show ?thesis using s by (simp add: H_out)
next
  case True
  have "H q (H q \<psi>) = tab n (\<lambda>bs. (amp (H q \<psi>) (bs[q := False]) +
            (if bs ! q then - 1 else 1) * amp (H q \<psi>) (bs[q := True])) / complex_of_real (sqrt 2))"
    by (rule H_eq [OF is_state_H [OF s] True])
  also have "\<dots> = \<psi>"
  proof (rule tab_eq_state [OF s])
    fix bs :: "bool list" assume l: "length bs = n"
    define a where "a = amp \<psi> (bs[q := False])"
    define b where "b = amp \<psi> (bs[q := True])"
    have e: "bs[q := bs ! q] = bs" by simp
    have f: "amp (H q \<psi>) (bs[q := False]) = (a + b) / complex_of_real (sqrt 2)"
      using True l by (simp add: amp_H [OF s] a_def b_def)
    have t: "amp (H q \<psi>) (bs[q := True]) = (a - b) / complex_of_real (sqrt 2)"
      using True l by (simp add: amp_H [OF s] a_def b_def)
    have "amp \<psi> bs = (if bs ! q then b else a)"
      unfolding a_def b_def by (metis (full_types) list_update_id)
    then show "(amp (H q \<psi>) (bs[q := False]) +
            (if bs ! q then - 1 else 1) * amp (H q \<psi>) (bs[q := True])) / complex_of_real (sqrt 2) = amp \<psi> bs"
      by (simp only: f t half_sum_if)
  qed
  finally show ?thesis .
qed

lemma X_X: assumes s: "is_state n \<psi>" shows "X q (X q \<psi>) = \<psi>"
proof (cases "q < n")
  case False
  then show ?thesis using s by (simp add: X_out)
next
  case True
  have "X q (X q \<psi>) = tab n (\<lambda>bs. amp (X q \<psi>) (bs[q := \<not> bs ! q]))"
    by (rule X_eq [OF is_state_X [OF s] True])
  also have "\<dots> = \<psi>"
  proof (rule tab_eq_state [OF s])
    fix bs :: "bool list" assume l: "length bs = n"
    have "bs[q := bs ! q] = bs" by simp
    then show "amp (X q \<psi>) (bs[q := \<not> bs ! q]) = amp \<psi> bs"
      using l True by (simp add: amp_X [OF s])
  qed
  finally show ?thesis .
qed

lemma CZ_CZ: assumes s: "is_state n \<psi>" shows "Controlled_Z cs t (Controlled_Z cs t \<psi>) = \<psi>"
proof (cases "list_all (\<lambda>q. q < n) (t # cs)")
  case False
  show ?thesis by (simp add: CZ_out [OF s False])
next
  case True
  have "Controlled_Z cs t (Controlled_Z cs t \<psi>) = tab n (\<lambda>bs. if list_all (\<lambda>c. bs ! c) cs \<and> bs ! t
          then - amp (Controlled_Z cs t \<psi>) bs else amp (Controlled_Z cs t \<psi>) bs)"
    by (rule CZ_eq [OF is_state_CZ [OF s] True])
  also have "\<dots> = \<psi>"
    by (rule tab_eq_state [OF s]) (simp add: amp_CZ [OF s True])
  finally show ?thesis .
qed

lemma is_state_fold:
  assumes "\<And>q \<phi>. is_state n \<phi> \<Longrightarrow> is_state n (g q \<phi>)"
  shows "is_state n \<psi> \<Longrightarrow> is_state n (fold g qs \<psi>)"
  by (induction qs arbitrary: \<psi>) (simp_all add: assms)

lemma fold_rev_cancel:
  assumes inv: "\<And>q \<phi>. is_state n \<phi> \<Longrightarrow> g q (g q \<phi>) = \<phi>"
    and st: "\<And>q \<phi>. is_state n \<phi> \<Longrightarrow> is_state n (g q \<phi>)"
  shows "is_state n \<psi> \<Longrightarrow> fold g (rev qs) (fold g qs \<psi>) = \<psi>"
proof (induction qs arbitrary: \<psi>)
  case Nil
  then show ?case by simp
next
  case (Cons q qs)
  have "fold g (rev (q # qs)) (fold g (q # qs) \<psi>) = g q (fold g (rev qs) (fold g qs (g q \<psi>)))"
    by simp
  also have "\<dots> = g q (g q \<psi>)"
    using Cons.IH [OF st [OF Cons.prems]] by simp
  also have "\<dots> = \<psi>" by (rule inv [OF Cons.prems])
  finally show ?case .
qed

lemma fold_cancel_rev:
  assumes inv: "\<And>q \<phi>. is_state n \<phi> \<Longrightarrow> g q (g q \<phi>) = \<phi>"
    and st: "\<And>q \<phi>. is_state n \<phi> \<Longrightarrow> is_state n (g q \<phi>)"
    and s: "is_state n \<psi>"
  shows "fold g qs (fold g (rev qs) \<psi>) = \<psi>"
  using fold_rev_cancel [of n g \<psi> "rev qs", OF inv st s] by simp

lemma ReflectAboutUniform_eq:
  assumes "inputQubits \<noteq> []"
  shows "ReflectAboutUniform inputQubits \<psi> =
     Inr (fold H inputQubits (fold X (rev inputQubits)
       (Controlled_Z (butlast inputQubits) (last inputQubits)
         (fold X inputQubits (fold H (rev inputQubits) \<psi>)))))"
  using assms
  by (simp add: ReflectAboutUniform_def ReflectAboutAllOnes_def Tail_def Most_def
      PrepareUniform_def Adjoint_PrepareUniform_def PrepareAllOnes_def Adjoint_PrepareAllOnes_def
      ApplyToEachCA_def Adjoint_ApplyToEachCA_def)

lemma ReflectAboutUniform_twice:
  assumes ne: "inputQubits \<noteq> []" and s: "is_state n \<psi>"
  shows "\<exists>\<phi>. ReflectAboutUniform inputQubits \<psi> = Inr \<phi> \<and> ReflectAboutUniform inputQubits \<phi> = Inr \<psi>"
proof -
  let ?qs = inputQubits
  define \<psi>1 where "\<psi>1 = fold H (rev ?qs) \<psi>"
  define \<psi>2 where "\<psi>2 = fold X ?qs \<psi>1"
  define \<psi>3 where "\<psi>3 = Controlled_Z (butlast ?qs) (last ?qs) \<psi>2"
  define \<psi>4 where "\<psi>4 = fold X (rev ?qs) \<psi>3"
  define \<phi> where "\<phi> = fold H ?qs \<psi>4"
  have s1: "is_state n \<psi>1" unfolding \<psi>1_def by (intro is_state_fold is_state_H s)
  have s2: "is_state n \<psi>2" unfolding \<psi>2_def by (intro is_state_fold is_state_X s1)
  have s3: "is_state n \<psi>3" unfolding \<psi>3_def by (intro is_state_CZ s2)
  have s4: "is_state n \<psi>4" unfolding \<psi>4_def by (intro is_state_fold is_state_X s3)
  have r1: "ReflectAboutUniform ?qs \<psi> = Inr \<phi>"
    by (simp add: ReflectAboutUniform_eq [OF ne] \<phi>_def \<psi>4_def \<psi>3_def \<psi>2_def \<psi>1_def)
  have b1: "fold H (rev ?qs) \<phi> = \<psi>4"
    unfolding \<phi>_def by (rule fold_rev_cancel [OF H_H is_state_H s4])
  have b2: "fold X ?qs \<psi>4 = \<psi>3"
    unfolding \<psi>4_def by (rule fold_cancel_rev [OF X_X is_state_X s3])
  have b3: "Controlled_Z (butlast ?qs) (last ?qs) \<psi>3 = \<psi>2"
    unfolding \<psi>3_def by (rule CZ_CZ [OF s2])
  have b4: "fold X (rev ?qs) \<psi>2 = \<psi>1"
    unfolding \<psi>2_def by (rule fold_rev_cancel [OF X_X is_state_X s1])
  have b5: "fold H ?qs \<psi>1 = \<psi>"
    unfolding \<psi>1_def by (rule fold_cancel_rev [OF H_H is_state_H s])
  have "ReflectAboutUniform ?qs \<phi> = Inr \<psi>"
    by (simp add: ReflectAboutUniform_eq [OF ne] b1 b2 b3 b4 b5)
  with r1 show ?thesis by blast
qed

lemma set_basis: "set (basis n) = {bs. length bs = n}"
proof (induction n)
  case 0
  then show ?case by auto
next
  case (Suc n)
  have "{bs. length bs = Suc n} = ((#) False) ` {bs. length bs = n} \<union> ((#) True) ` {bs. length bs = n}"
  proof (intro set_eqI iffI)
    fix bs :: "bool list" assume "bs \<in> {bs. length bs = Suc n}"
    then obtain x xs where "bs = x # xs" "length xs = n" by (cases bs) auto
    then show "bs \<in> ((#) False) ` {bs. length bs = n} \<union> ((#) True) ` {bs. length bs = n}"
      by (cases x) auto
  qed auto
  then show ?case using Suc by simp
qed

lemma snoc_nth: "length bs = n \<Longrightarrow> (bs @ [x]) ! n = x"
  by auto

lemma snoc_update: "length bs = n \<Longrightarrow> (bs @ [x])[n := v] = bs @ [v]"
  by auto

lemma zip_upt_match:
  assumes "length bs = n" "length bits = n"
  shows "list_all (\<lambda>(c, b). (bs @ [x]) ! c = b) (zip [0..<n] bits) \<longleftrightarrow> bs = bits"
proof -
  have "list_all (\<lambda>(c, b). (bs @ [x]) ! c = b) (zip [0..<n] bits)
        \<longleftrightarrow> (\<forall>i<n. (bs @ [x]) ! i = bits ! i)"
    using assms by (auto simp: list_all_length)
  also have "\<dots> \<longleftrightarrow> (\<forall>i<n. bs ! i = bits ! i)"
    using assms by (simp add: nth_append)
  also have "\<dots> \<longleftrightarrow> bs = bits"
    using assms by (auto simp: list_eq_iff_nth_eq)
  finally show ?thesis .
qed

lemma length_IntAsBoolArray_loop [simp]: "length (IntAsBoolArray_loop k t) = k"
  by (induction k arbitrary: t) simp_all

lemma is_state_allocate: "is_state n \<psi> \<Longrightarrow> is_state (Suc n) (allocate \<psi>)"
  using nqubits_state [of n \<psi>] by (simp add: allocate_def)

lemma amp_allocate:
  "is_state n \<psi> \<Longrightarrow> length bs = n \<Longrightarrow> amp (allocate \<psi>) (bs @ [x]) = (if x then 0 else amp \<psi> bs)"
  using nqubits_state [of n \<psi>] by (simp add: allocate_def)

lemma COBS_eq:
  assumes "is_state m \<psi>" "list_all (\<lambda>q. q < m) (t # cs)"
  shows "ControlledOnBitString_X bits cs t \<psi> =
    tab m (\<lambda>bs. if list_all (\<lambda>(c, b). bs ! c = b) (zip cs bits)
                              then amp \<psi> (bs[t := \<not> bs ! t]) else amp \<psi> bs)"
  using assms nqubits_state [OF assms(1)] by (simp add: ControlledOnBitString_X_def)

lemma release_eq:
  assumes s: "is_state (Suc n) \<psi>"
    and z: "\<And>bs. length bs = n \<Longrightarrow> amp \<psi> (bs @ [True]) = 0"
  shows "release \<psi> = Inr (tab n (\<lambda>bs. amp \<psi> (bs @ [False])))"
  using nqubits_state [OF s] z by (simp add: release_def list_all_iff set_basis)

lemma ReflectAboutMarked_eq:
  assumes s: "is_state n \<psi>"
    and idx: "0 \<le> idxMarked" "idxMarked < 2 ^ n" and n: "n \<le> 63"
  shows "ReflectAboutMarked idxMarked [0..<n] \<psi> = Inr (phase_flip (IntAsBoolArray_loop n idxMarked) \<psi>)"
proof -
  define bits where "bits = IntAsBoolArray_loop n idxMarked"
  define r where "r = complex_of_real (sqrt 2)"
  have lb: "length bits = n" by (simp add: bits_def)
  have nq: "nqubits \<psi> = n" by (rule nqubits_state [OF s])
  define A0 where "A0 = allocate \<psi>"
  define A1 where "A1 = X n A0"
  define A2 where "A2 = H n A1"
  define A3 where "A3 = ControlledOnBitString_X bits [0..<n] n A2"
  define A4 where "A4 = H n A3"
  define A5 where "A5 = X n A4"
  have s0: "is_state (Suc n) A0" unfolding A0_def by (rule is_state_allocate [OF s])
  have s1: "is_state (Suc n) A1" unfolding A1_def by (rule is_state_X [OF s0])
  have s2: "is_state (Suc n) A2" unfolding A2_def by (rule is_state_H [OF s1])
  have ctl: "list_all (\<lambda>q. q < Suc n) (n # [0..<n])" by (simp add: list_all_iff)
  have s3: "is_state (Suc n) A3" unfolding A3_def by (simp add: COBS_eq [OF s2 ctl])
  have s4: "is_state (Suc n) A4" unfolding A4_def by (rule is_state_H [OF s3])
  have s5: "is_state (Suc n) A5" unfolding A5_def by (rule is_state_X [OF s4])
  have a0: "amp A0 (bs @ [x]) = (if x then 0 else amp \<psi> bs)" if "length bs = n" for bs x
    unfolding A0_def by (rule amp_allocate [OF s that])
  have a1: "amp A1 (bs @ [x]) = (if x then amp \<psi> bs else 0)" if "length bs = n" for bs x
    unfolding A1_def using that
    by (simp add: amp_X [OF s0] snoc_nth snoc_update a0)
  have a2: "amp A2 (bs @ [x]) = (if x then - (amp \<psi> bs / r) else amp \<psi> bs / r)"
    if "length bs = n" for bs x
    unfolding A2_def using that
    by (simp add: amp_H [OF s1] snoc_nth snoc_update a1 r_def)
  have a3: "amp A3 (bs @ [x]) =
      (if bs = bits then (if x then amp \<psi> bs / r else - (amp \<psi> bs / r))
       else (if x then - (amp \<psi> bs / r) else amp \<psi> bs / r))"
    if "length bs = n" for bs x
    unfolding A3_def using that lb
    by (simp add: COBS_eq [OF s2 ctl] zip_upt_match [OF that lb] snoc_nth snoc_update a2)
  have a4: "amp A4 (bs @ [x]) = (if x then (if bs = bits then - amp \<psi> bs else amp \<psi> bs) else 0)"
    if "length bs = n" for bs x
    unfolding A4_def using that
    by (simp add: amp_H [OF s3] snoc_nth snoc_update a3 r_def sqrt2_sq)
  have a5: "amp A5 (bs @ [x]) = (if x then 0 else (if bs = bits then - amp \<psi> bs else amp \<psi> bs))"
    if "length bs = n" for bs x
    unfolding A5_def using that
    by (simp add: amp_X [OF s4] snoc_nth snoc_update a4)
  have rel: "release A5 = Inr (tab n (\<lambda>bs. amp A5 (bs @ [False])))"
    by (rule release_eq [OF s5]) (simp add: a5)
  have "tab n (\<lambda>bs. amp A5 (bs @ [False])) = tab n (\<lambda>bs. if bs = bits then - amp \<psi> bs else amp \<psi> bs)"
    by (rule tab_cong) (simp add: a5)
  then have rel': "release A5 = Inr (phase_flip bits \<psi>)"
    using rel by (simp add: phase_flip_def nq)
  have "IntAsBoolArray idxMarked (int (length [0..<n])) = Inr bits"
    using idx n by (simp add: IntAsBoolArray_def bits_def)
  then have "ControlledOnInt_X idxMarked [0..<n] n A2 = Inr A3"
    by (simp add: ControlledOnInt_X_def A3_def)
  then show ?thesis
    using rel' by (simp add: ReflectAboutMarked_def Let_def nq A0_def [symmetric] A1_def [symmetric]
        A2_def [symmetric] A4_def [symmetric] A5_def [symmetric] bits_def)
qed

lemma norm2_tab_zero: "norm2 (tab n (\<lambda>bs. 0)) = 0"
  by (induction n) (simp_all add: tab.simps)

lemma norm2_tab_single:
  "norm2 (tab n (\<lambda>bs. if bs = v then c else 0)) = (if length v = n then (cmod c)\<^sup>2 else 0)"
proof (induction n arbitrary: v)
  case 0
  then show ?case by (auto simp: tab.simps)
next
  case (Suc n)
  show ?case
  proof (cases v)
    case Nil
    then show ?thesis by (simp add: tab.simps norm2_tab_zero)
  next
    case (Cons x xs)
    show ?thesis
    proof (cases x)
      case True
      then show ?thesis using Cons Suc.IH [of xs] by (simp add: tab.simps norm2_tab_zero)
    next
      case False
      then show ?thesis using Cons Suc.IH [of xs] by (simp add: tab.simps norm2_tab_zero)
    qed
  qed
qed

lemma MResetZ_eq:
  assumes "is_state n \<psi>" "q < n"
  shows "MResetZ q r \<psi> = tab n (\<lambda>bs. if bs ! q then 0 else amp \<psi> (bs[q := (r = One)]))"
  using assms nqubits_state [OF assms(1)] by (simp add: MResetZ_def)

lemma is_state_MResetZ: "is_state n \<psi> \<Longrightarrow> is_state n (MResetZ q r \<psi>)"
  using nqubits_state [of n \<psi>] by (simp add: MResetZ_def)

lemma ForEach_MResetZ_state:
  "is_state n \<psi> \<Longrightarrow> is_state n (ForEach_MResetZ qs rs \<psi>)"
  by (induction qs rs \<psi> rule: ForEach_MResetZ.induct) (simp_all add: is_state_MResetZ)

lemma amp_ForEach_MResetZ:
  assumes "is_state n \<psi>" "length rs = n - d" "d \<le> n" "length bs = n"
  shows "amp (ForEach_MResetZ [d..<n] rs \<psi>) bs =
     (if drop d bs = replicate (n - d) False then amp \<psi> (take d bs @ map (\<lambda>r. r = One) rs) else 0)"
  using assms
proof (induction rs arbitrary: d \<psi>)
  case Nil
  then have "d = n" by simp
  then show ?case using Nil by simp
next
  case (Cons r rs)
  then have dn: "d < n" by simp
  have upt: "[d..<n] = d # [Suc d..<n]" using dn by (rule upt_conv_Cons)
  have s': "is_state n (MResetZ d r \<psi>)" by (rule is_state_MResetZ [OF Cons.prems(1)])
  have l': "length rs = n - Suc d" using Cons.prems(2) by simp
  have ih: "amp (ForEach_MResetZ [Suc d..<n] rs (MResetZ d r \<psi>)) bs =
     (if drop (Suc d) bs = replicate (n - Suc d) False
      then amp (MResetZ d r \<psi>) (take (Suc d) bs @ map (\<lambda>r. r = One) rs) else 0)"
    using Cons.IH [OF s' l' _ Cons.prems(4)] dn by simp
  define cs where "cs = take (Suc d) bs @ map (\<lambda>r. r = One) rs"
  have tk: "take (Suc d) bs = take d bs @ [bs ! d]"
    using dn Cons.prems(4) by (simp add: take_Suc_conv_app_nth)
  have lcs: "length cs = n" using dn Cons.prems(4) l' by (simp add: cs_def)
  have csd: "cs ! d = bs ! d"
    using dn Cons.prems(4) by (simp add: cs_def tk nth_append)
  have csu: "cs[d := v] = take d bs @ v # map (\<lambda>r. r = One) rs" for v
    using dn Cons.prems(4) by (simp add: cs_def tk list_update_append)
  have m: "amp (MResetZ d r \<psi>) cs =
     (if bs ! d then 0 else amp \<psi> (take d bs @ map (\<lambda>r. r = One) (r # rs)))"
    using lcs by (simp add: MResetZ_eq [OF Cons.prems(1) dn] csd csu)
  have dr: "drop d bs = bs ! d # drop (Suc d) bs"
    using dn Cons.prems(4) by (simp add: Cons_nth_drop_Suc)
  have rp: "replicate (n - d) False = False # replicate (n - Suc d) False"
    using dn by (simp add: Suc_diff_Suc replicate_Suc [symmetric] del: replicate_Suc)
  show ?case
    using ih m by (auto simp: upt dr rp cs_def)
qed

lemma measure_all:
  assumes s: "is_state n \<psi>" and l: "length rs = n"
  shows "norm2 (ForEach_MResetZ [0..<n] rs \<psi>) = (cmod (amp \<psi> (map (\<lambda>r. r = One) rs)))\<^sup>2"
proof -
  let ?\<phi> = "ForEach_MResetZ [0..<n] rs \<psi>"
  let ?c = "amp \<psi> (map (\<lambda>r. r = One) rs)"
  have "tab n (\<lambda>bs. if bs = replicate n False then ?c else 0) = ?\<phi>"
    by (rule tab_eq_state [OF ForEach_MResetZ_state [OF s]])
       (use amp_ForEach_MResetZ [OF s, of rs 0] l in simp)
  then have "norm2 ?\<phi> = norm2 (tab n (\<lambda>bs. if bs = replicate n False then ?c else 0))"
    by simp
  then show ?thesis by (simp add: norm2_tab_single)
qed

lemma is_state_zero: "is_state n (zero_state n)"
  by (simp add: zero_state_def)

lemma fold_H_prefix:
  assumes "j \<le> n"
  shows "fold H [0..<j] (zero_state n) =
    tab n (\<lambda>bs. if drop j bs = replicate (n - j) False then 1 / complex_of_real (sqrt 2) ^ j else 0)"
  using assms
proof (induction j)
  case 0
  have "tab n (\<lambda>bs. if bs = replicate n False then 1 else 0) =
    tab n (\<lambda>bs. if drop 0 bs = replicate (n - 0) False then 1 / complex_of_real (sqrt 2) ^ 0 else 0)"
    by (rule tab_cong) simp
  then show ?case by (simp add: zero_state_def)
next
  case (Suc j)
  then have jn: "j < n" by simp
  define \<phi> where "\<phi> = tab n (\<lambda>bs. if drop j bs = replicate (n - j) False
      then 1 / complex_of_real (sqrt 2) ^ j else 0)"
  have ih: "fold H [0..<j] (zero_state n) = \<phi>" using Suc by (simp add: \<phi>_def)
  have s: "is_state n \<phi>" by (simp add: \<phi>_def)
  have rp: "replicate (n - j) False = False # replicate (n - Suc j) False"
    using jn by (simp add: Suc_diff_Suc replicate_Suc [symmetric] del: replicate_Suc)
  have "H j \<phi> = tab n (\<lambda>bs. if drop (Suc j) bs = replicate (n - Suc j) False
      then 1 / complex_of_real (sqrt 2) ^ Suc j else 0)"
    unfolding H_eq [OF s jn]
  proof (rule tab_cong)
    fix bs :: "bool list" assume l: "length bs = n"
    have dr: "drop j (bs[j := v]) = v # drop (Suc j) bs" for v
      using jn l by (simp add: Cons_nth_drop_Suc [symmetric])
    have "amp \<phi> (bs[j := True]) = 0"
      using l by (simp add: \<phi>_def dr rp)
    moreover have "amp \<phi> (bs[j := False]) =
       (if drop (Suc j) bs = replicate (n - Suc j) False then 1 / complex_of_real (sqrt 2) ^ j else 0)"
      using l by (simp add: \<phi>_def dr rp)
    ultimately show "(amp \<phi> (bs[j := False]) + (if bs ! j then - 1 else 1) * amp \<phi> (bs[j := True])) /
          complex_of_real (sqrt 2) =
         (if drop (Suc j) bs = replicate (n - Suc j) False then 1 / complex_of_real (sqrt 2) ^ Suc j else 0)"
      by simp
  qed
  then show ?case using ih by simp
qed

lemma PrepareUniform_zero:
  "PrepareUniform [0..<n] (zero_state n) = uniform_superposition n"
proof -
  have "complex_of_real (sqrt (2 ^ n)) = complex_of_real (sqrt 2) ^ n"
    by (simp add: real_sqrt_power)
  then have "tab n (\<lambda>bs. if drop n bs = replicate (n - n) False
      then 1 / complex_of_real (sqrt 2) ^ n else 0) = uniform_superposition n"
    unfolding uniform_superposition_def by (intro tab_cong) simp
  then show ?thesis
    using fold_H_prefix [of n n]
    by (simp only: PrepareUniform_def ApplyToEachCA_def order_refl)
qed

lemma H3: 
  "H q (Branch (Branch (Branch (Amp a0) (Amp a1)) (Branch (Amp a2) (Amp a3)))
               (Branch (Branch (Amp a4) (Amp a5)) (Branch (Amp a6) (Amp a7)))) = 
   (if q = 0 then Branch (Branch (Branch (Amp ((a0 + a4) / complex_of_real (sqrt 2))) (Amp ((a1 + a5) / complex_of_real (sqrt 2)))) 
                                 (Branch (Amp ((a2 + a6) / complex_of_real (sqrt 2))) (Amp ((a3 + a7) / complex_of_real (sqrt 2)))))
                         (Branch (Branch (Amp ((a0 - a4) / complex_of_real (sqrt 2))) (Amp ((a1 - a5) / complex_of_real (sqrt 2)))) 
                                 (Branch (Amp ((a2 - a6) / complex_of_real (sqrt 2))) (Amp ((a3 - a7) / complex_of_real (sqrt 2)))))
    else if q = 1 then Branch (Branch (Branch (Amp ((a0 + a2) / complex_of_real (sqrt 2))) (Amp ((a1 + a3) / complex_of_real (sqrt 2)))) 
                                 (Branch (Amp ((a0 - a2) / complex_of_real (sqrt 2))) (Amp ((a1 - a3) / complex_of_real (sqrt 2)))))
                         (Branch (Branch (Amp ((a4 + a6) / complex_of_real (sqrt 2))) (Amp ((a5 + a7) / complex_of_real (sqrt 2)))) 
                                 (Branch (Amp ((a4 - a6) / complex_of_real (sqrt 2))) (Amp ((a5 - a7) / complex_of_real (sqrt 2)))))
    else if q = 2 then Branch (Branch (Branch (Amp ((a0 + a1) / complex_of_real (sqrt 2))) (Amp ((a0 - a1) / complex_of_real (sqrt 2)))) 
                                 (Branch (Amp ((a2 + a3) / complex_of_real (sqrt 2))) (Amp ((a2 - a3) / complex_of_real (sqrt 2)))))
                         (Branch (Branch (Amp ((a4 + a5) / complex_of_real (sqrt 2))) (Amp ((a4 - a5) / complex_of_real (sqrt 2)))) 
                                 (Branch (Amp ((a6 + a7) / complex_of_real (sqrt 2))) (Amp ((a6 - a7) / complex_of_real (sqrt 2)))))
    else Branch (Branch (Branch (Amp a0) (Amp a1)) (Branch (Amp a2) (Amp a3)))
               (Branch (Branch (Amp a4) (Amp a5)) (Branch (Amp a6) (Amp a7))))"
  by (simp add: H_def tab.simps eval_nat_numeral)

lemma X3:
  "X q (Branch (Branch (Branch (Amp (a0)) (Amp (a1))) (Branch (Amp (a2)) (Amp (a3)))) (Branch (Branch (Amp (a4)) (Amp (a5))) (Branch (Amp (a6)) (Amp (a7))))) =
   (if q = 0 then (Branch (Branch (Branch (Amp (a4)) (Amp (a5))) (Branch (Amp (a6)) (Amp (a7)))) (Branch (Branch (Amp (a0)) (Amp (a1))) (Branch (Amp (a2)) (Amp (a3)))))
    else if q = 1 then (Branch (Branch (Branch (Amp (a2)) (Amp (a3))) (Branch (Amp (a0)) (Amp (a1)))) (Branch (Branch (Amp (a6)) (Amp (a7))) (Branch (Amp (a4)) (Amp (a5)))))
    else if q = 2 then (Branch (Branch (Branch (Amp (a1)) (Amp (a0))) (Branch (Amp (a3)) (Amp (a2)))) (Branch (Branch (Amp (a5)) (Amp (a4))) (Branch (Amp (a7)) (Amp (a6)))))
    else (Branch (Branch (Branch (Amp (a0)) (Amp (a1))) (Branch (Amp (a2)) (Amp (a3)))) (Branch (Branch (Amp (a4)) (Amp (a5))) (Branch (Amp (a6)) (Amp (a7))))))"
  by (simp add: X_def tab.simps eval_nat_numeral)

lemma CZ3:
  "Controlled_Z [0, Suc 0] 2 (Branch (Branch (Branch (Amp (a0)) (Amp (a1))) (Branch (Amp (a2)) (Amp (a3)))) (Branch (Branch (Amp (a4)) (Amp (a5))) (Branch (Amp (a6)) (Amp (a7))))) = (Branch (Branch (Branch (Amp (a0)) (Amp (a1))) (Branch (Amp (a2)) (Amp (a3)))) (Branch (Branch (Amp (a4)) (Amp (a5))) (Branch (Amp (a6)) (Amp (- a7)))))"
  by (simp add: Controlled_Z_def tab.simps eval_nat_numeral)

lemma r6: "complex_of_real (sqrt 2) * complex_of_real (sqrt 2) * complex_of_real (sqrt 2) *
   complex_of_real (sqrt 2) * complex_of_real (sqrt 2) * complex_of_real (sqrt 2) = 8"
proof -
  have "complex_of_real (sqrt 2) * complex_of_real (sqrt 2) * complex_of_real (sqrt 2) *
   complex_of_real (sqrt 2) * complex_of_real (sqrt 2) * complex_of_real (sqrt 2)
   = (complex_of_real (sqrt 2) * complex_of_real (sqrt 2)) * ((complex_of_real (sqrt 2) * complex_of_real (sqrt 2)) * (complex_of_real (sqrt 2) * complex_of_real (sqrt 2)))"
    by (simp only: mult.assoc)
  then show ?thesis by (simp only: sqrt2_sq) simp
qed

lemma diffusion3:
  "diffusion [0, 1, 2] (Branch (Branch (Branch (Amp (a0)) (Amp (a1))) (Branch (Amp (a2)) (Amp (a3)))) (Branch (Branch (Amp (a4)) (Amp (a5))) (Branch (Amp (a6)) (Amp (a7))))) = (Branch (Branch (Branch (Amp (a0 - (a0 + a1 + a2 + a3 + a4 + a5 + a6 + a7) / 4)) (Amp (a1 - (a0 + a1 + a2 + a3 + a4 + a5 + a6 + a7) / 4))) (Branch (Amp (a2 - (a0 + a1 + a2 + a3 + a4 + a5 + a6 + a7) / 4)) (Amp (a3 - (a0 + a1 + a2 + a3 + a4 + a5 + a6 + a7) / 4)))) (Branch (Branch (Amp (a4 - (a0 + a1 + a2 + a3 + a4 + a5 + a6 + a7) / 4)) (Amp (a5 - (a0 + a1 + a2 + a3 + a4 + a5 + a6 + a7) / 4))) (Branch (Amp (a6 - (a0 + a1 + a2 + a3 + a4 + a5 + a6 + a7) / 4)) (Amp (a7 - (a0 + a1 + a2 + a3 + a4 + a5 + a6 + a7) / 4)))))"
  apply (simp add: diffusion_def H3 X3 CZ3 del: of_real_eq_0_iff)
  apply (simp add: add_divide_distrib [symmetric] diff_divide_distrib [symmetric] divide_divide_eq_left minus_divide_left del: of_real_eq_0_iff)
  apply (simp only: r6)
  apply (simp add: field_simps)
  done

lemma is_state_phase_flip: "is_state n \<psi> \<Longrightarrow> is_state n (phase_flip bits \<psi>)"
  using nqubits_state [of n \<psi>] by (simp add: phase_flip_def)

lemma is_state_diffusion: "is_state n \<psi> \<Longrightarrow> is_state n (diffusion qs \<psi>)"
  unfolding diffusion_def
  by (intro is_state_fold is_state_H is_state_X is_state_CZ)

lemma ReflectAboutUniform_diffusion:
  "inputQubits \<noteq> [] \<Longrightarrow> ReflectAboutUniform inputQubits \<psi> = Inr (diffusion inputQubits \<psi>)"
  by (simp add: ReflectAboutUniform_eq diffusion_def)

lemma for_loop_total:
  assumes b: "\<And>\<phi>. is_state n \<phi> \<Longrightarrow> body \<phi> = Inr (g \<phi>)"
    and st: "\<And>\<phi>. is_state n \<phi> \<Longrightarrow> is_state n (g \<phi>)"
  shows "is_state n \<psi> \<Longrightarrow> for_loop xs body \<psi> = Inr ((g ^^ length xs) \<psi>)"
proof (induction xs arbitrary: \<psi>)
  case Nil
  then show ?case by simp
next
  case (Cons x xs)
  have "for_loop (x # xs) body \<psi> = for_loop xs body (g \<psi>)"
    by (simp add: b [OF Cons.prems])
  also have "\<dots> = Inr ((g ^^ length xs) (g \<psi>))"
    by (rule Cons.IH [OF st [OF Cons.prems]])
  finally show ?case by (simp add: funpow_swap1)
qed

lemma is_state_funpow:
  assumes "\<And>\<phi>. is_state n \<phi> \<Longrightarrow> is_state n (g \<phi>)"
  shows "is_state n \<psi> \<Longrightarrow> is_state n ((g ^^ k) \<psi>)"
  by (induction k) (simp_all add: assms)

lemma IntAsBoolArray_loop_nth:
  "i < k \<Longrightarrow> IntAsBoolArray_loop k t ! i = odd (t div 2 ^ i)"
proof (induction k arbitrary: t i)
  case 0
  then show ?case by simp
next
  case (Suc k)
  show ?case
  proof (cases i)
    case 0
    then show ?thesis by (simp add: odd_iff_mod_2_eq_one)
  next
    case (Suc j)
    then have "j < k" using Suc.prems by simp
    from Suc.IH [OF this, of "t div 2"] show ?thesis
      using Suc by (simp add: zdiv_zmult2_eq)
  qed
qed

lemma is_state_uniform: "is_state n (uniform_superposition n)"
  by (simp add: uniform_superposition_def)

lemma SearchForMarkedInput_eq:
  assumes n: "1 \<le> nQubits" "nQubits \<le> 62"
    and idx: "0 \<le> idxMarked" "idxMarked < 2 ^ nat nQubits"
    and k: "NIterations D nQubits = Some k"
  shows "SearchForMarkedInput D nQubits idxMarked =
     Inr (\<lambda>results. if length results = nat nQubits
          then (cmod (amp (((\<lambda>\<psi>. diffusion [0..<nat nQubits]
                   (phase_flip (IntAsBoolArray_loop (nat nQubits) idxMarked) \<psi>)) ^^ nat k)
                 (uniform_superposition (nat nQubits))) (map (\<lambda>r. r = One) results)))\<^sup>2
          else 0)"
proof -
  define m where "m = nat nQubits"
  define g where "g = (\<lambda>\<psi>. diffusion [0..<m] (phase_flip (IntAsBoolArray_loop m idxMarked) \<psi>))"
  define body where "body = (\<lambda>\<psi>. case ReflectAboutMarked idxMarked [0..<m] \<psi> of
                              Inl e \<Rightarrow> Inl e
                            | Inr \<psi>' \<Rightarrow> ReflectAboutUniform [0..<m] \<psi>')"
  have m1: "1 \<le> m" "m \<le> 63" using n by (simp_all add: m_def)
  have ne: "[0..<m] \<noteq> []" using m1 by simp
  have b: "body \<phi> = Inr (g \<phi>)" if "is_state m \<phi>" for \<phi>
    using ReflectAboutMarked_eq [OF that idx(1) _ m1(2)] idx(2)
    by (simp add: body_def g_def m_def ReflectAboutUniform_diffusion [OF ne [unfolded m_def]])
  have st: "is_state m (g \<phi>)" if "is_state m \<phi>" for \<phi>
    unfolding g_def by (intro is_state_diffusion is_state_phase_flip that)
  have len: "length [0..k - 1] = nat k" by simp
  have loop: "for_loop [0..k - 1] body (uniform_superposition m) = Inr ((g ^^ nat k) (uniform_superposition m))"
    using for_loop_total [of m body g, OF b st is_state_uniform] len by simp
  have fin: "is_state m ((g ^^ nat k) (uniform_superposition m))"
    by (rule is_state_funpow [OF st is_state_uniform])
  have "SearchForMarkedInput D nQubits idxMarked =
     Inr (\<lambda>results. if length results = m
          then norm2 (ForEach_MResetZ [0..<m] results ((g ^^ nat k) (uniform_superposition m))) else 0)"
    using n k loop
    by (simp add: SearchForMarkedInput_def Let_def PrepareUniform_zero m_def [symmetric] body_def [symmetric])
  also have "\<dots> = Inr (\<lambda>results. if length results = m
          then (cmod (amp ((g ^^ nat k) (uniform_superposition m)) (map (\<lambda>r. r = One) results)))\<^sup>2 else 0)"
    using measure_all [OF fin] by (auto intro!: ext)
  finally show ?thesis unfolding g_def m_def .
qed

lemma phase_flip3:
  "phase_flip [False, True, True] (Branch (Branch (Branch (Amp (a0)) (Amp (a1))) (Branch (Amp (a2)) (Amp (a3)))) (Branch (Branch (Amp (a4)) (Amp (a5))) (Branch (Amp (a6)) (Amp (a7))))) = (Branch (Branch (Branch (Amp (a0)) (Amp (a1))) (Branch (Amp (a2)) (Amp (- a3)))) (Branch (Branch (Amp (a4)) (Amp (a5))) (Branch (Amp (a6)) (Amp (a7)))))"
  by (simp add: phase_flip_def tab.simps eval_nat_numeral)

lemma uniform3:
  "uniform_superposition 3 = (Branch (Branch (Branch (Amp (1 / complex_of_real (sqrt 8))) (Amp (1 / complex_of_real (sqrt 8)))) (Branch (Amp (1 / complex_of_real (sqrt 8))) (Amp (1 / complex_of_real (sqrt 8))))) (Branch (Branch (Amp (1 / complex_of_real (sqrt 8))) (Amp (1 / complex_of_real (sqrt 8)))) (Branch (Amp (1 / complex_of_real (sqrt 8))) (Amp (1 / complex_of_real (sqrt 8))))))"
  by (simp add: uniform_superposition_def tab.simps eval_nat_numeral)

lemma bits_6: "IntAsBoolArray_loop 3 6 = [False, True, True]"
  by (simp add: eval_nat_numeral)

lemma upt3: "[0..<3] = [0, 1, 2]"
  by (simp add: eval_nat_numeral upt_rec)

lemma funpow2: "(g ^^ 2) x = g (g x)"
  by (simp add: numeral_2_eq_2)

lemma two_rounds3:
  "((\<lambda>\<psi>. diffusion [0, 1, 2] (phase_flip [False, True, True] \<psi>)) ^^ 2) (Branch (Branch (Branch (Amp (c)) (Amp (c))) (Branch (Amp (c)) (Amp (c)))) (Branch (Branch (Amp (c)) (Amp (c))) (Branch (Amp (c)) (Amp (c))))) = (Branch (Branch (Branch (Amp (- (c / 4))) (Amp (- (c / 4)))) (Branch (Amp (- (c / 4))) (Amp (11 * c / 4)))) (Branch (Branch (Amp (- (c / 4))) (Amp (- (c / 4)))) (Branch (Amp (- (c / 4))) (Amp (- (c / 4))))))"
  by (simp only: funpow2 phase_flip3 diffusion3) simp

lemma uniform_amplitude: "(cmod (1 / complex_of_real (sqrt 8)))\<^sup>2 = 1 / 8"
  by (simp add: norm_divide power_divide)

lemma amp_final3:
  assumes "length rs = 3" and c: "(cmod c)\<^sup>2 = 1 / 8"
  shows "(cmod (amp (Branch (Branch (Branch (Amp (- (c / 4))) (Amp (- (c / 4)))) (Branch (Amp (- (c / 4))) (Amp (11 * c / 4)))) (Branch (Branch (Amp (- (c / 4))) (Amp (- (c / 4)))) (Branch (Amp (- (c / 4))) (Amp (- (c / 4)))))) (map (\<lambda>r. r = One) rs)))\<^sup>2 =
     (if rs = [Zero, One, One] then 121 / 128 else 1 / 128)"
proof -
  obtain r0 r1 r2 where rs: "rs = [r0, r1, r2]"
    using assms(1) by (auto simp: eval_nat_numeral length_Suc_conv)
  have a: "(cmod (11 * c / 4))\<^sup>2 = 121 / 128"
    using c by (simp add: norm_divide norm_mult power_divide power_mult_distrib)
  have b: "(cmod (- (c / 4)))\<^sup>2 = 1 / 128"
    using c by (simp add: norm_divide power_divide)
  show ?thesis
    unfolding rs by (cases r0; cases r1; cases r2) (simp_all only: list.map Result.distinct
      Result.simps amp.simps a b if_True if_False simp_thms list.inject)
qed

lemma Grover_3_6_distribution:
  assumes acc: "accurate D"
  shows "SearchForMarkedInput D 3 6 =
     Inr (\<lambda>results. if length results = 3
            then (if results = [Zero, One, One] then 121 / 128 else 1 / 128) else 0)"
proof -
  define c where "c = 1 / complex_of_real (sqrt 8)"
  have c: "(cmod c)\<^sup>2 = 1 / 8" unfolding c_def by (rule uniform_amplitude)
  have k: "NIterations D 3 = Some 2" by (rule NIterations_3 [OF acc])
  have fin: "((\<lambda>\<psi>. diffusion [0..<nat 3] (phase_flip (IntAsBoolArray_loop (nat 3) 6) \<psi>)) ^^ nat 2)
                 (uniform_superposition (nat 3)) = (Branch (Branch (Branch (Amp (- (c / 4))) (Amp (- (c / 4)))) (Branch (Amp (- (c / 4))) (Amp (11 * c / 4)))) (Branch (Branch (Amp (- (c / 4))) (Amp (- (c / 4)))) (Branch (Amp (- (c / 4))) (Amp (- (c / 4))))))"
    using two_rounds3 [of c] by (simp add: upt3 bits_6 uniform3 c_def)
  have "SearchForMarkedInput D 3 6 =
     Inr (\<lambda>results. if length results = nat 3
          then (cmod (amp (Branch (Branch (Branch (Amp (- (c / 4))) (Amp (- (c / 4)))) (Branch (Amp (- (c / 4))) (Amp (11 * c / 4)))) (Branch (Branch (Amp (- (c / 4))) (Amp (- (c / 4)))) (Branch (Amp (- (c / 4))) (Amp (- (c / 4)))))) (map (\<lambda>r. r = One) results)))\<^sup>2 else 0)"
    using SearchForMarkedInput_eq [of 3 6 D 2, OF _ _ _ _ k] by (simp only: fin) simp
  also have "\<dots> = Inr (\<lambda>results. if length results = 3
            then (if results = [Zero, One, One] then 121 / 128 else 1 / 128) else 0)"
    using amp_final3 [OF _ c] by (auto intro!: ext)
  finally show ?thesis .
qed

lemma outcomes_3: "outcomes 3 = [[Zero, Zero, Zero], [One, Zero, Zero], [Zero, One, Zero], [One, One, Zero],
    [Zero, Zero, One], [One, Zero, One], [Zero, One, One], [One, One, One]]"
  by (simp add: outcomes_def eval_nat_numeral)

subsection \<open>Gates preserve the norm\<close>

lemma is_state_SucE:
  assumes "is_state (Suc n) \<psi>"
  obtains a b where "\<psi> = Branch a b" "is_state n a" "is_state n b"
  using assms by (cases \<psi>) auto

lemma X_Branch_0:
  assumes "is_state n a" "is_state n b"
  shows "X 0 (Branch a b) = Branch b a"
proof -
  have s: "is_state (Suc n) (Branch a b)" using assms by simp
  show ?thesis
    by (simp add: X_eq [OF s] tab.simps tab_amp [OF assms(1)] tab_amp [OF assms(2)])
qed

lemma X_Branch_Suc:
  assumes "is_state n a" "is_state n b"
  shows "X (Suc q) (Branch a b) = Branch (X q a) (X q b)"
proof (cases "q < n")
  case True
  have s: "is_state (Suc n) (Branch a b)" using assms by simp
  show ?thesis
    using True by (simp add: X_eq [OF s] X_eq [OF assms(1)] X_eq [OF assms(2)] tab.simps)
next
  case False
  have s: "is_state (Suc n) (Branch a b)" using assms by simp
  show ?thesis
    using False by (simp add: X_out [OF s] X_out [OF assms(1)] X_out [OF assms(2)])
qed

lemma norm2_X: "is_state n \<psi> \<Longrightarrow> norm2 (X q \<psi>) = norm2 \<psi>"
proof (induction n arbitrary: q \<psi>)
  case 0
  then show ?case by (simp add: X_out)
next
  case (Suc n)
  from Suc.prems obtain a b where ab: "\<psi> = Branch a b" "is_state n a" "is_state n b"
    by (rule is_state_SucE)
  show ?case
  proof (cases q)
    case 0
    then show ?thesis using ab by (simp add: X_Branch_0)
  next
    case (Suc q')
    then show ?thesis using ab Suc.IH by (simp add: X_Branch_Suc)
  qed
qed

lemma H_Branch_0:
  assumes "is_state n a" "is_state n b"
  shows "H 0 (Branch a b) =
    Branch (tab n (\<lambda>bs. (amp a bs + amp b bs) / complex_of_real (sqrt 2)))
           (tab n (\<lambda>bs. (amp a bs - amp b bs) / complex_of_real (sqrt 2)))"
proof -
  have s: "is_state (Suc n) (Branch a b)" using assms by simp
  show ?thesis by (simp add: H_eq [OF s] tab.simps)
qed

lemma H_Branch_Suc:
  assumes "is_state n a" "is_state n b"
  shows "H (Suc q) (Branch a b) = Branch (H q a) (H q b)"
proof (cases "q < n")
  case True
  have s: "is_state (Suc n) (Branch a b)" using assms by simp
  show ?thesis
    using True by (simp add: H_eq [OF s] H_eq [OF assms(1)] H_eq [OF assms(2)] tab.simps)
next
  case False
  have s: "is_state (Suc n) (Branch a b)" using assms by simp
  show ?thesis
    using False by (simp add: H_out [OF s] H_out [OF assms(1)] H_out [OF assms(2)])
qed

lemma parallelogram:
  fixes x y :: complex
  shows "(cmod ((x + y) / complex_of_real (sqrt 2)))\<^sup>2 + (cmod ((x - y) / complex_of_real (sqrt 2)))\<^sup>2
       = (cmod x)\<^sup>2 + (cmod y)\<^sup>2"
proof -
  have "(cmod ((x + y) / complex_of_real (sqrt 2)))\<^sup>2 = (cmod (x + y))\<^sup>2 / 2"
    by (simp add: norm_divide power_divide)
  moreover have "(cmod ((x - y) / complex_of_real (sqrt 2)))\<^sup>2 = (cmod (x - y))\<^sup>2 / 2"
    by (simp add: norm_divide power_divide)
  moreover have "(cmod (x + y))\<^sup>2 + (cmod (x - y))\<^sup>2 = 2 * (cmod x)\<^sup>2 + 2 * (cmod y)\<^sup>2"
    by (simp only: cmod_power2 plus_complex.sel minus_complex.sel) (simp add: power2_eq_square algebra_simps)
  ultimately show ?thesis by simp
qed

lemma norm2_butterfly:
  "norm2 (tab n (\<lambda>bs. (f bs + g bs) / complex_of_real (sqrt 2))) +
   norm2 (tab n (\<lambda>bs. (f bs - g bs) / complex_of_real (sqrt 2))) =
   norm2 (tab n f) + norm2 (tab n g)"
proof (induction n arbitrary: f g)
  case 0
  then show ?case by (simp add: tab.simps parallelogram)
next
  case (Suc n)
  show ?case
    using Suc.IH [of "\<lambda>bs. f (False # bs)" "\<lambda>bs. g (False # bs)"]
      Suc.IH [of "\<lambda>bs. f (True # bs)" "\<lambda>bs. g (True # bs)"]
    by (simp add: tab.simps)
qed

lemma norm2_H: "is_state n \<psi> \<Longrightarrow> norm2 (H q \<psi>) = norm2 \<psi>"
proof (induction n arbitrary: q \<psi>)
  case 0
  then show ?case by (simp add: H_out)
next
  case (Suc n)
  from Suc.prems obtain a b where ab: "\<psi> = Branch a b" "is_state n a" "is_state n b"
    by (rule is_state_SucE)
  show ?case
  proof (cases q)
    case 0
    then show ?thesis
      using ab norm2_butterfly [of n "amp a" "amp b"]
      by (simp add: H_Branch_0 tab_amp)
  next
    case (Suc q')
    then show ?thesis using ab Suc.IH by (simp add: H_Branch_Suc)
  qed
qed

lemma norm2_sign:
  "norm2 (tab n (\<lambda>bs. if P bs then - f bs else f bs)) = norm2 (tab n f)"
proof (induction n arbitrary: P f)
  case 0
  then show ?case by (simp add: tab.simps)
next
  case (Suc n)
  show ?case
    using Suc.IH [of "\<lambda>bs. P (False # bs)" "\<lambda>bs. f (False # bs)"]
      Suc.IH [of "\<lambda>bs. P (True # bs)" "\<lambda>bs. f (True # bs)"]
    by (simp add: tab.simps)
qed

lemma norm2_CZ: "is_state n \<psi> \<Longrightarrow> norm2 (Controlled_Z cs t \<psi>) = norm2 \<psi>"
proof (cases "list_all (\<lambda>q. q < n) (t # cs)")
  case True
  assume s: "is_state n \<psi>"
  show ?thesis
    using norm2_sign [of n "\<lambda>bs. list_all (\<lambda>c. bs ! c) cs \<and> bs ! t" "amp \<psi>"]
    by (simp add: CZ_eq [OF s True] tab_amp [OF s])
next
  case False
  assume s: "is_state n \<psi>"
  show ?thesis by (simp add: CZ_out [OF s False])
qed

lemma norm2_phase_flip: "is_state n \<psi> \<Longrightarrow> norm2 (phase_flip bits \<psi>) = norm2 \<psi>"
  using norm2_sign [of n "\<lambda>bs. bs = bits" "amp \<psi>"] nqubits_state [of n \<psi>]
  by (simp add: phase_flip_def tab_amp)

lemma norm2_fold:
  assumes "\<And>q \<phi>. is_state n \<phi> \<Longrightarrow> norm2 (g q \<phi>) = norm2 \<phi>"
    and "\<And>q \<phi>. is_state n \<phi> \<Longrightarrow> is_state n (g q \<phi>)"
  shows "is_state n \<psi> \<Longrightarrow> norm2 (fold g qs \<psi>) = norm2 \<psi>"
  by (induction qs arbitrary: \<psi>) (simp_all add: assms)

lemma norm2_diffusion:
  assumes s: "is_state n \<psi>" shows "norm2 (diffusion qs \<psi>) = norm2 \<psi>"
proof -
  have s1: "is_state n (fold H (rev qs) \<psi>)" by (intro is_state_fold is_state_H s)
  have s2: "is_state n (fold X qs (fold H (rev qs) \<psi>))" by (intro is_state_fold is_state_X s1)
  have s3: "is_state n (Controlled_Z (butlast qs) (last qs) (fold X qs (fold H (rev qs) \<psi>)))"
    by (intro is_state_CZ s2)
  have s4: "is_state n (fold X (rev qs) (Controlled_Z (butlast qs) (last qs) (fold X qs (fold H (rev qs) \<psi>))))"
    by (intro is_state_fold is_state_X s3)
  show ?thesis
    unfolding diffusion_def
    by (simp add: norm2_fold [OF norm2_H is_state_H s4] norm2_fold [OF norm2_X is_state_X s3]
        norm2_CZ [OF s2] norm2_fold [OF norm2_X is_state_X s1] norm2_fold [OF norm2_H is_state_H s])
qed

lemma norm2_funpow:
  assumes "\<And>\<phi>. is_state n \<phi> \<Longrightarrow> norm2 (g \<phi>) = norm2 \<phi>"
    and "\<And>\<phi>. is_state n \<phi> \<Longrightarrow> is_state n (g \<phi>)"
    and "is_state n \<psi>"
  shows "norm2 ((g ^^ k) \<psi>) = norm2 \<psi>"
proof (induction k)
  case 0
  then show ?case by simp
next
  case (Suc k)
  have "is_state n ((g ^^ k) \<psi>)" by (rule is_state_funpow [OF assms(2,3)])
  then show ?case using Suc assms(1) by simp
qed

lemma norm2_tab_const: "norm2 (tab n (\<lambda>bs. c)) = 2 ^ n * (cmod c)\<^sup>2"
  by (induction n) (simp_all add: tab.simps)

lemma norm2_uniform: "norm2 (uniform_superposition n) = 1"
  by (simp add: uniform_superposition_def norm2_tab_const norm_divide power_divide)

lemma sum_list_pairs:
  fixes f :: "Result list \<Rightarrow> real"
  shows "(\<Sum>rs\<leftarrow>concat (map (\<lambda>ys. [Zero # ys, One # ys]) L). f rs) =
         (\<Sum>ys\<leftarrow>L. f (Zero # ys) + f (One # ys))"
  by (induction L) simp_all

lemma sum_outcomes:
  "is_state n \<psi> \<Longrightarrow>
   (\<Sum>rs\<leftarrow>outcomes n. (cmod (amp \<psi> (map (\<lambda>r. r = One) rs)))\<^sup>2) = norm2 \<psi>"
proof (induction n arbitrary: \<psi>)
  case 0
  then show ?case by (cases \<psi>) (simp_all add: outcomes_def)
next
  case (Suc n)
  from Suc.prems obtain a b where ab: "\<psi> = Branch a b" "is_state n a" "is_state n b"
    by (rule is_state_SucE)
  have "(\<Sum>rs\<leftarrow>outcomes (Suc n). (cmod (amp \<psi> (map (\<lambda>r. r = One) rs)))\<^sup>2) =
     (\<Sum>rs\<leftarrow>outcomes n. (cmod (amp a (map (\<lambda>r. r = One) rs)))\<^sup>2 +
                          (cmod (amp b (map (\<lambda>r. r = One) rs)))\<^sup>2)"
    by (simp add: outcomes_def ab(1) sum_list_pairs)
  also have "\<dots> = norm2 a + norm2 b"
    using Suc.IH [OF ab(2)] Suc.IH [OF ab(3)] by (simp add: sum_list_addf)
  finally show ?case by (simp add: ab(1))
qed

lemma length_outcomes: "rs \<in> set (outcomes n) \<Longrightarrow> length rs = n"
  by (simp add: outcomes_def length_n_lists_elem)

lemma SearchForMarkedInput_total:
  assumes n: "1 \<le> nQubits" "nQubits \<le> 62"
    and idx: "0 \<le> idxMarked" "idxMarked < 2 ^ nat nQubits"
    and k: "NIterations D nQubits = Some k"
  shows "\<exists>p. SearchForMarkedInput D nQubits idxMarked = Inr p \<and>
             sum_list (map p (outcomes (nat nQubits))) = 1"
proof -
  define m where "m = nat nQubits"
  define g where "g = (\<lambda>\<psi>. diffusion [0..<m] (phase_flip (IntAsBoolArray_loop m idxMarked) \<psi>))"
  define p where "p = (\<lambda>results. if length results = m
          then (cmod (amp ((g ^^ nat k) (uniform_superposition m)) (map (\<lambda>r. r = One) results)))\<^sup>2
          else 0)"
  have st: "is_state m (g \<phi>)" if "is_state m \<phi>" for \<phi>
    unfolding g_def by (intro is_state_diffusion is_state_phase_flip that)
  have nm: "norm2 (g \<phi>) = norm2 \<phi>" if "is_state m \<phi>" for \<phi>
    unfolding g_def
    by (simp add: norm2_diffusion [OF is_state_phase_flip [OF that]] norm2_phase_flip [OF that])
  have fin: "is_state m ((g ^^ nat k) (uniform_superposition m))"
    by (rule is_state_funpow [OF st is_state_uniform])
  have "sum_list (map p (outcomes m)) =
     (\<Sum>rs\<leftarrow>outcomes m. (cmod (amp ((g ^^ nat k) (uniform_superposition m)) (map (\<lambda>r. r = One) rs)))\<^sup>2)"
    by (rule arg_cong [of _ _ sum_list], rule map_cong) (simp_all add: p_def length_outcomes)
  also have "\<dots> = norm2 ((g ^^ nat k) (uniform_superposition m))"
    by (rule sum_outcomes [OF fin])
  also have "\<dots> = 1"
    by (simp add: norm2_funpow [OF nm st is_state_uniform] norm2_uniform)
  finally have "sum_list (map p (outcomes m)) = 1" .
  moreover have "SearchForMarkedInput D nQubits idxMarked = Inr p"
    using SearchForMarkedInput_eq [OF n idx k] unfolding p_def g_def m_def .
  ultimately show ?thesis by (auto simp: m_def)
qed

subsection \<open>Claims about the Grover operations\<close>

text \<open>
  C5. Applying \<open>ReflectAboutUniform\<close> twice to a register of any size \<open>\<ge> 1\<close>, within
  a state \<open>\<psi>\<close> of any number \<open>n\<close> of qubits, returns every state to itself: both
  applications succeed, and the second undoes the first exactly, not only up to a global
  phase.
\<close>

theorem ReflectAboutUniform_involution:
  assumes "inputQubits \<noteq> []" and "is_state n \<psi>"
  shows "\<exists>\<phi>. ReflectAboutUniform inputQubits \<psi> = Inr \<phi> \<and>
             ReflectAboutUniform inputQubits \<phi> = Inr \<psi>"
  using assms by (rule ReflectAboutUniform_twice)

theorem ReflectAboutUniform_involution_witness:
  "\<exists>\<phi>. ReflectAboutUniform [0, 1] (zero_state 2) = Inr \<phi> \<and>
       ReflectAboutUniform [0, 1] \<phi> = Inr (zero_state 2)"
  using ReflectAboutUniform_involution [of "[0, 1]" 2 "zero_state 2"] is_state_zero [of 2]
  by simp

text \<open>
  C1 (as amended). For \<open>1 \<le> nQubits \<le> 62\<close>, a marked index with
  \<open>0 \<le> idxMarked < 2 ^ nQubits\<close> and an accurate Double arithmetic, \<open>NIterations nQubits\<close>
  returns some \<open>k \<ge> 0\<close>, and the output distribution of \<open>SearchForMarkedInput\<close> is that of
  measuring every qubit of the state reached from the uniform superposition by exactly
  \<open>k\<close> rounds of the reflection about the marked state followed by the reflection about
  the uniform state: the probability of an array of \<open>nQubits\<close> results is the squared
  modulus of the amplitude of the basis state whose qubit \<open>i\<close> is the result at position
  \<open>i\<close>. \<open>PrepareUniform\<close> yields the uniform superposition, \<open>ReflectAboutMarked\<close> flips the
  sign of the basis state whose qubit \<open>i\<close> is bit \<open>i\<close> of \<open>idxMarked\<close> (little-endian), and
  \<open>ReflectAboutUniform\<close> is its gate sequence.
\<close>

theorem SearchForMarkedInput_rounds:
  assumes "accurate D" "1 \<le> nQubits" "nQubits \<le> 62"
    and "0 \<le> idxMarked" "idxMarked < 2 ^ nat nQubits"
  shows "\<exists>k. NIterations D nQubits = Some k \<and> 0 \<le> k \<and>
     SearchForMarkedInput D nQubits idxMarked =
       Inr (\<lambda>results. if length results = nat nQubits
          then (cmod (amp (((\<lambda>\<psi>. diffusion [0..<nat nQubits]
                   (phase_flip (IntAsBoolArray_loop (nat nQubits) idxMarked) \<psi>)) ^^ nat k)
                 (uniform_superposition (nat nQubits))) (map (\<lambda>r. r = One) results)))\<^sup>2
          else 0) \<and>
     PrepareUniform [0..<nat nQubits] (zero_state (nat nQubits)) = uniform_superposition (nat nQubits) \<and>
     (\<forall>\<psi>. is_state (nat nQubits) \<psi> \<longrightarrow>
        ReflectAboutMarked idxMarked [0..<nat nQubits] \<psi> =
          Inr (phase_flip (IntAsBoolArray_loop (nat nQubits) idxMarked) \<psi>) \<and>
        ReflectAboutUniform [0..<nat nQubits] \<psi> = Inr (diffusion [0..<nat nQubits] \<psi>)) \<and>
     (\<forall>i<nat nQubits. IntAsBoolArray_loop (nat nQubits) idxMarked ! i = odd (idxMarked div 2 ^ i))"
proof -
  obtain k where k: "NIterations D nQubits = Some k" "0 \<le> k"
    using NIterations_nonneg [OF assms(1-3)] by blast
  have ne: "[0..<nat nQubits] \<noteq> []" using assms(2) by simp
  have m: "nat nQubits \<le> 63" using assms(3) by simp
  have "ReflectAboutMarked idxMarked [0..<nat nQubits] \<psi> =
          Inr (phase_flip (IntAsBoolArray_loop (nat nQubits) idxMarked) \<psi>)"
    if "is_state (nat nQubits) \<psi>" for \<psi>
    by (rule ReflectAboutMarked_eq [OF that assms(4,5) m])
  then show ?thesis
    using k SearchForMarkedInput_eq [OF assms(2-5) k(1)] PrepareUniform_zero [of "nat nQubits"]
      ReflectAboutUniform_diffusion [OF ne] IntAsBoolArray_loop_nth [of _ "nat nQubits" idxMarked]
    by (intro exI [of _ k]) simp
qed

theorem SearchForMarkedInput_rounds_witness:
  "\<exists>k. NIterations exact 3 = Some k \<and> 0 \<le> k \<and>
     SearchForMarkedInput exact 3 6 =
       Inr (\<lambda>results. if length results = nat 3
          then (cmod (amp (((\<lambda>\<psi>. diffusion [0..<nat 3]
                   (phase_flip (IntAsBoolArray_loop (nat 3) 6) \<psi>)) ^^ nat k)
                 (uniform_superposition (nat 3))) (map (\<lambda>r. r = One) results)))\<^sup>2
          else 0)"
proof -
  have "(1::int) \<le> 3" "(3::int) \<le> 62" "(0::int) \<le> 6" "(6::int) < 2 ^ nat 3" by simp_all
  from SearchForMarkedInput_rounds [OF accurate_exact this] show ?thesis by blast
qed

text \<open>
  C1 as stated fails at \<open>nQubits = 63\<close>: no iteration count is defined and the operation
  returns no measurement.
\<close>

theorem SearchForMarkedInput_rounds_counterexample:
  "SearchForMarkedInput exact 63 0 = Inl NoIterationCount"
proof -
  have "NIterations exact 63 = None" by (simp add: NIterations_def shl_63)
  then show ?thesis by (simp add: SearchForMarkedInput_def Let_def)
qed

text \<open>
  C10 (as amended). Whenever \<open>SearchForMarkedInput\<close> returns, the array of results has
  exactly \<open>nQubits\<close> entries, one per qubit of the register in order; and for
  \<open>1 \<le> nQubits \<le> 62\<close> and \<open>0 \<le> idxMarked < 2 ^ nQubits\<close>, in an accurate Double
  arithmetic, it does return: the probabilities of the arrays of \<open>nQubits\<close> results sum
  to 1.
\<close>

theorem SearchForMarkedInput_length:
  "(SearchForMarkedInput D nQubits idxMarked = Inr p \<and> p results \<noteq> 0 \<longrightarrow>
      length results = nat nQubits) \<and>
   (accurate D \<and> 1 \<le> nQubits \<and> nQubits \<le> 62 \<and> 0 \<le> idxMarked \<and> idxMarked < 2 ^ nat nQubits \<longrightarrow>
      (\<exists>p. SearchForMarkedInput D nQubits idxMarked = Inr p \<and>
           sum_list (map p (outcomes (nat nQubits))) = 1))"
proof (intro conjI impI)
  assume "SearchForMarkedInput D nQubits idxMarked = Inr p \<and> p results \<noteq> 0"
  then show "length results = nat nQubits"
    by (auto simp: SearchForMarkedInput_def Let_def split: if_splits option.splits sum.splits)
next
  assume a: "accurate D \<and> 1 \<le> nQubits \<and> nQubits \<le> 62 \<and> 0 \<le> idxMarked \<and> idxMarked < 2 ^ nat nQubits"
  then obtain k where "NIterations D nQubits = Some k"
    using NIterations_nonneg [of D nQubits] by blast
  from SearchForMarkedInput_total [OF _ _ _ _ this, of idxMarked] a
  show "\<exists>p. SearchForMarkedInput D nQubits idxMarked = Inr p \<and>
           sum_list (map p (outcomes (nat nQubits))) = 1" by blast
qed

theorem SearchForMarkedInput_length_witness:
  "(\<exists>p. SearchForMarkedInput exact 3 6 = Inr p \<and> sum_list (map p (outcomes (nat 3))) = 1) \<and>
   (\<forall>p results. \<not> (SearchForMarkedInput exact 3 6 = Inr p \<and> p results \<noteq> 0 \<and> length results \<noteq> 3))"
proof -
  have "(1::int) \<le> 3 \<and> (3::int) \<le> 62 \<and> (0::int) \<le> 6 \<and> (6::int) < 2 ^ nat 3" by simp
  then have "\<exists>p. SearchForMarkedInput exact 3 6 = Inr p \<and> sum_list (map p (outcomes (nat 3))) = 1"
    using SearchForMarkedInput_length [of exact 3 6] accurate_exact by blast
  moreover have "length results = 3"
    if "SearchForMarkedInput exact 3 6 = Inr p \<and> p results \<noteq> 0" for p results
    using SearchForMarkedInput_length [of exact 3 6 p results] that by simp
  ultimately show ?thesis by blast
qed

text \<open>
  C10 as stated fails for a marked index outside the register's range: with three qubits
  and \<open>idxMarked = 8\<close> the conversion of the index in \<open>ControlledOnInt\<close> fails and no
  array is returned.
\<close>

theorem SearchForMarkedInput_length_counterexample:
  "SearchForMarkedInput exact 3 8 = Inl NumberOutOfRange"
proof -
  have k: "NIterations exact 3 = Some 2" by (rule NIterations_3 [OF accurate_exact])
  have r: "[0..(1::int)] = 0 # [1..1]" by (simp add: upto_rec1)
  have "ReflectAboutMarked 8 [0..<nat 3] \<psi> = Inl NumberOutOfRange" for \<psi>
    by (simp add: ReflectAboutMarked_def Let_def ControlledOnInt_X_def IntAsBoolArray_def)
  then show ?thesis
    by (simp add: SearchForMarkedInput_def Let_def k r)
qed

text \<open>
  C6. For three qubits and marked index 6, whose little-endian results are
  \<open>[Zero, One, One]\<close>, the search runs \<open>NIterations 3 = 2\<close> rounds and returns
  \<open>[Zero, One, One]\<close> with probability \<open>121/128 > 0.9\<close> and each of the other seven arrays
  of three results with probability \<open>1/128\<close>; the eight probabilities sum to 1.
\<close>

theorem Grover_3_qubits_marked_6:
  assumes "accurate D"
  shows "\<exists>p. SearchForMarkedInput D 3 6 = Inr p \<and>
     NIterations D 3 = Some 2 \<and>
     map (\<lambda>b. if b then One else Zero) (IntAsBoolArray_loop 3 6) = [Zero, One, One] \<and>
     p [Zero, One, One] = 121 / 128 \<and> 9 / 10 < p [Zero, One, One] \<and>
     (\<forall>results. length results = 3 \<and> results \<noteq> [Zero, One, One] \<longrightarrow> p results = 1 / 128) \<and>
     length (outcomes 3) = 8 \<and> sum_list (map p (outcomes 3)) = 1"
  using Grover_3_6_distribution [OF assms] NIterations_3 [OF assms]
  by (simp add: bits_6 outcomes_3)

theorem Grover_3_qubits_marked_6_witness:
  "\<exists>p. SearchForMarkedInput exact 3 6 = Inr p \<and>
     p [Zero, One, One] = 121 / 128 \<and> p [One, One, One] = 1 / 128 \<and>
     sum_list (map p (outcomes 3)) = 1"
proof -
  from Grover_3_qubits_marked_6 [OF accurate_exact] obtain p where
    p: "SearchForMarkedInput exact 3 6 = Inr p" "p [Zero, One, One] = 121 / 128"
      "\<forall>results. length results = 3 \<and> results \<noteq> [Zero, One, One] \<longrightarrow> p results = 1 / 128"
      "sum_list (map p (outcomes 3)) = 1"
    by blast
  from p(3) have "p [One, One, One] = 1 / 128" by simp
  with p show ?thesis by blast
qed


section \<open>Properties of the Cirq notebook and the lifecycle client\<close>

lemma keys_to_cirq_result:
  "keys_of (to_cirq_result (PyDict d)) =
     map (lstrip ''m_'') (filter (\<lambda>key. startswith key ''m_'') (map fst d))"
  by (induction d) auto

lemma repetitions_to_cirq_result:
  "repetitions_of (to_cirq_result (PyDict d)) =
     repetitions_of (PyDict (filter (\<lambda>(key, value). startswith key ''m_'') d))"
  by (induction d) auto

text \<open>
  C7 (as amended). For every target, program and number of repetitions,
  \<open>service.run(program, n)\<close> is \<open>create_job(program, n)\<close> followed by \<open>job.results()\<close>
  and the conversion of the dictionary to a \<open>cirq.Result\<close>. The two paths run the same
  job but return different types: \<open>run\<close> a \<open>cirq.Result\<close> whose keys are the register
  names that start with \<open>m_\<close>, stripped of their leading \<open>m\<close> and \<open>_\<close> characters, with
  one value per repetition as in the dictionary; \<open>job.results()\<close> the dictionary of the
  target. On the notebook's circuit and target the two results are the ones the notebook
  records.
\<close>

theorem run_and_job_results:
  "service_run T program repetitions =
     to_cirq_result (job_results T (create_job program repetitions)) \<and>
   type_of (service_run T program repetitions) = ''cirq.Result'' \<and>
   type_of (job_results T (create_job program repetitions)) = ''dict'' \<and>
   keys_of (service_run T program repetitions) =
     map (lstrip ''m_'')
       (filter (\<lambda>key. startswith key ''m_'')
         (keys_of (job_results T (create_job program repetitions)))) \<and>
   repetitions_of (service_run T program repetitions) =
     repetitions_of (PyDict (filter (\<lambda>(key, value). startswith key ''m_'')
       (T program repetitions))) \<and>
   job_results api_validator (create_job notebook_circuit 100) =
     PyDict [(''m_b'', replicate 100 ''00'')] \<and>
   service_run api_validator notebook_circuit 100 = CirqResult [(''b'', replicate 100 0)]"
proof -
  have r: "py_int ''00'' = 0" by (simp add: py_int_def)
  have k: "keys_of (service_run T program repetitions) =
     map (lstrip ''m_'')
       (filter (\<lambda>key. startswith key ''m_'')
         (keys_of (job_results T (create_job program repetitions))))"
    by (simp add: service_run_def job_results_def Let_def keys_to_cirq_result del: to_cirq_result.simps)
  have n: "repetitions_of (service_run T program repetitions) =
     repetitions_of (PyDict (filter (\<lambda>(key, value). startswith key ''m_'')
       (T program repetitions)))"
    by (simp add: service_run_def job_results_def create_job_def Let_def
        repetitions_to_cirq_result del: to_cirq_result.simps)
  have v: "job_results api_validator (create_job notebook_circuit 100) =
     PyDict [(''m_b'', replicate 100 ''00'')]"
    by (simp add: job_results_def create_job_def api_validator_def notebook_circuit_def
        numeral_eq_Suc)
  have "to_cirq_result (PyDict [(''m_b'', replicate 100 ''00'')]) =
     CirqResult [(''b'', replicate 100 0)]"
    by (simp add: startswith_def lstrip_def r)
  then have w: "service_run api_validator notebook_circuit 100 = CirqResult [(''b'', replicate 100 0)]"
    using v by (simp add: service_run_def Let_def)
  show ?thesis
    using k n v w by (simp add: service_run_def job_results_def Let_def)
qed

text \<open>
  C7 as stated fails on the notebook's own run: the two paths return results of
  different types.
\<close>

theorem run_and_job_results_counterexample:
  "type_of (service_run api_validator notebook_circuit 100) \<noteq>
   type_of (job_results api_validator (create_job notebook_circuit 100))"
  by (simp add: service_run_def job_results_def Let_def)

declare poll.simps [simp del]

lemma poll_timeout:
  assumes "\<forall>t. now \<le> t \<and> t \<le> deadline \<longrightarrow> \<not> terminal (getStatus B job t)"
    and "now \<le> deadline"
  shows "poll B job interval deadline now = Inl PollingTimeout"
  using assms
proof (induction B job interval deadline now rule: poll.induct)
  case (1 B job interval deadline now)
  have nt: "\<not> terminal (getStatus B job now)" using "1.prems" by simp
  show ?case
  proof (cases "deadline < now + max 1 interval")
    case True
    then show ?thesis using nt by (subst poll.simps) (simp add: Let_def)
  next
    case False
    have "poll B job interval deadline (now + max 1 interval) = Inl PollingTimeout"
      using "1.IH" [OF refl nt False] "1.prems" False by simp
    then show ?thesis using nt False by (subst poll.simps) (simp add: Let_def)
  qed
qed

lemma poll_terminal:
  "terminal (getStatus B job now) \<Longrightarrow> poll B job interval deadline now = Inr (getStatus B job now)"
  by (subst poll.simps) (simp add: Let_def)

text \<open>
  C8. When the status of the job is not terminal at any time up to the deadline,
  \<open>blockUntilResult\<close> fails with PollingTimeout and with no other error, and returns the
  job unchanged; the job can be polled again, and a later call made once the job has
  succeeded returns its normalized result.
\<close>

theorem blockUntilResult_timeout:
  assumes "\<forall>t. now \<le> t \<and> t \<le> deadline \<longrightarrow> \<not> terminal (getStatus B job t)"
    and "now \<le> deadline"
  shows "blockUntilResult B job interval deadline now = (Inl PollingTimeout, job) \<and>
    (\<forall>later deadline'. getStatus B job later = Succeeded \<longrightarrow>
       blockUntilResult B (snd (blockUntilResult B job interval deadline now)) interval deadline' later
         = (Inr (normalize (getResult B job)), job))"
proof -
  have t: "blockUntilResult B job interval deadline now = (Inl PollingTimeout, job)"
    using poll_timeout [OF assms] by (simp add: blockUntilResult_def)
  have "blockUntilResult B job interval deadline' later = (Inr (normalize (getResult B job)), job)"
    if "getStatus B job later = Succeeded" for later deadline'
    using poll_terminal [of B job later interval deadline'] that
    by (simp add: blockUntilResult_def)
  then show ?thesis using t by simp
qed

theorem blockUntilResult_timeout_witness:
  "blockUntilResult
     \<lparr>getStatus = (\<lambda>job t. if t < 10 then Waiting else Succeeded),
      getResult = (\<lambda>job. [(''m_b'', [''00'', ''00''])])\<rparr> 7 2 5 0 = (Inl PollingTimeout, 7) \<and>
   blockUntilResult
     \<lparr>getStatus = (\<lambda>job t. if t < 10 then Waiting else Succeeded),
      getResult = (\<lambda>job. [(''m_b'', [''00'', ''00''])])\<rparr> 7 2 20 12 =
       (Inr [(''b'', [''00'', ''00''])], 7)"
proof -
  let ?B = "\<lparr>getStatus = (\<lambda>job t. if t < (10::nat) then Waiting else Succeeded),
      getResult = (\<lambda>job. [(''m_b'', [''00'', ''00''])])\<rparr>"
  have h: "\<forall>t. 0 \<le> t \<and> t \<le> 5 \<longrightarrow> \<not> terminal (getStatus ?B 7 t)" by simp
  note w = blockUntilResult_timeout [OF h, of 2]
  have a: "blockUntilResult ?B 7 2 5 0 = (Inl PollingTimeout, 7)" using w by simp
  have "getStatus ?B 7 12 = Succeeded" by simp
  then have "blockUntilResult ?B (snd (blockUntilResult ?B 7 2 5 0)) 2 20 12
      = (Inr (normalize (getResult ?B 7)), 7)"
    using w by blast
  then have "blockUntilResult ?B 7 2 20 12 = (Inr [(''b'', [''00'', ''00''])], 7)"
    by (simp add: a normalize_def register_name_def)
  with a show ?thesis by simp
qed

text \<open>
  C9. The raw payload \<open>{'m_b': ['00', '00']}\<close> is normalized to a ResultSet of two shots
  with the single register \<open>b\<close>, whose outcomes are \<open>'00'\<close> and \<open>'00'\<close>.
\<close>

theorem normalize_payload:
  "shot_count (normalize [(''m_b'', [''00'', ''00''])]) = 2 \<and>
   registers (normalize [(''m_b'', [''00'', ''00''])]) = [''b''] \<and>
   outcomes_of (normalize [(''m_b'', [''00'', ''00''])]) ''b'' = Some [''00'', ''00'']"
  by (simp add: normalize_def register_name_def shot_count_def registers_def outcomes_of_def)


end
